theory Spec2Isabelle
  imports Main
begin

section \<open>Buffer manager (buffer_mgr.c): data model\<close>

text \<open>
  The page frames, the buffer pool and the file-level globals of \<^verbatim>\<open>buffer_mgr.c\<close>.
  A data buffer (\<^verbatim>\<open>SM_PageHandle\<close>, a \<^verbatim>\<open>char *\<close>) is modelled by its
  contents, \<open>None\<close> being the NULL pointer: every buffer is allocated freshly by
  \<^verbatim>\<open>pinPage\<close> and no two frames ever point to the same one, so copying the pointer
  and copying the contents agree for the operations modelled here. The headers
  \<^verbatim>\<open>buffer_mgr.h\<close> and \<^verbatim>\<open>dberror.h\<close> are not among the sources: the records and
  datatypes below have the fields, the strategies and the return codes that
  \<^verbatim>\<open>buffer_mgr.c\<close> names.
\<close>

type_synonym PageNumber = int

type_synonym SM_PageHandle = "string option"

datatype ReplacementStrategy = RS_FIFO | RS_LRU | RS_CLOCK | RS_LFU | RS_LRU_K

datatype RC =
    RC_OK
  | RC_ERROR
  | RC_BUFFER_POOL_SHUTDOWN_ERROR
  | RC_PINNED_PAGES_IN_BUFFER
  | RC_POOL_NOT_OPEN
  | RC_PAGE_NOT_PINNED
  | RC_PAGE_NOT_IN_FRAMELIST
  | RC_NEGATIVE_PAGE_NUM

record PageFrame =
  data :: SM_PageHandle
  pageNum :: PageNumber
  dirtyBit :: int
  fixCount :: int
  hitNum :: int
  refNum :: int

text \<open>
  The calls made to the storage manager (\<^verbatim>\<open>storage_mgr.h\<close>, an external collaborator):
  the block reads and block writes, in the order in which they happen.
\<close>

datatype io_event = ReadBlock PageNumber | WriteBlock PageNumber SM_PageHandle

text \<open>
  One record holds the six globals of the file (\<open>bufferSize\<close>, \<open>rearIndex\<close>,
  \<open>writeCount\<close>, \<open>hit\<close>, \<open>clockPointer\<close>, \<open>lfuPointer\<close>), the fields of the
  \<^verbatim>\<open>BM_BufferPool\<close> (\<open>pageFile\<close>, \<open>numPages\<close>, \<open>strategy\<close>, \<open>mgmtData\<close>; a NULL
  pointer is \<open>None\<close>), the page file (\<open>disk\<close>) with the trace \<open>io\<close> of the blocks read
  and written, and \<open>uninit\<close>, the indeterminate value that a freshly allocated
  \<^verbatim>\<open>PageFrame\<close> holds in a field the code never assigns. The counters are C ints that
  are only reset to zero and incremented; they are naturals here and their overflow is
  not modelled.
\<close>

record state =
  bufferSize :: nat
  rearIndex :: nat
  writeCount :: nat
  hit :: nat
  clockPointer :: nat
  lfuPointer :: nat
  pageFile :: "string option"
  numPages :: nat
  strategy :: ReplacementStrategy
  mgmtData :: "PageFrame list option"
  disk :: "PageNumber \<Rightarrow> string"
  io :: "io_event list"
  uninit :: int

text \<open>
  What a call does: it returns a value, or it reads an array out of bounds or through a
  NULL pointer (undefined behaviour in C). A call that never returns is \<open>None\<close> in the
  functions below whose result is an \<open>option\<close>.
\<close>

datatype 'a outcome = Returns 'a | Undefined

section \<open>The storage manager\<close>

text \<open>
  Modelled from the spec: \<^verbatim>\<open>storage_mgr.c\<close> is not part of the sources. The spec gives
  \<^verbatim>\<open>readBlock(pageNumber, handle) -> bytes\<close> and
  \<^verbatim>\<open>writeBlock(pageNumber, handle, bytes)\<close>; \<^verbatim>\<open>openPageFile\<close> and
  \<^verbatim>\<open>ensureCapacity\<close> change nothing that the buffer manager reads back.
\<close>

definition readBlock :: "PageNumber \<Rightarrow> state \<Rightarrow> SM_PageHandle \<times> state" where
  "readBlock n s = (Some (disk s n), s\<lparr>io := io s @ [ReadBlock n]\<rparr>)"

definition writeBlock :: "PageNumber \<Rightarrow> SM_PageHandle \<Rightarrow> state \<Rightarrow> state" where
  "writeBlock n buf s =
     s\<lparr>disk := (case buf of None \<Rightarrow> disk s | Some b \<Rightarrow> (disk s)(n := b)),
       io := io s @ [WriteBlock n buf]\<rparr>"

section \<open>Initialisation\<close>

definition initBufferPool ::
  "state \<Rightarrow> string option \<Rightarrow> nat \<Rightarrow> ReplacementStrategy \<Rightarrow> state" where
  "initBufferPool s pageFN n strat =
     s\<lparr>pageFile := pageFN, numPages := n, strategy := strat,
       bufferSize := n,
       mgmtData := Some (replicate n
          \<lparr>data = None, pageNum = - 1, dirtyBit = 0, fixCount = 0, hitNum = 0, refNum = 0\<rparr>),
       lfuPointer := 0, writeCount := 0, clockPointer := 0\<rparr>"

section \<open>Replacement strategies\<close>

definition persistPage :: "state \<Rightarrow> PageFrame \<Rightarrow> state" where
  "persistPage bm pageFrame =
     (let bm1 = writeBlock (pageNum pageFrame) (data pageFrame) bm
      in bm1\<lparr>writeCount := writeCount bm1 + 1\<rparr>)"

subsection \<open>FIFO\<close>

text \<open>
  The scan \<^verbatim>\<open>while (pageFrame[frontIndex].fixCount > 0) frontIndex = (frontIndex + 1) % bufferSize;\<close>
  has no bound: it is a partial function, \<open>None\<close> when it runs forever.
\<close>

partial_function (option) FIFO_scan :: "PageFrame list \<Rightarrow> nat \<Rightarrow> nat \<Rightarrow> nat option" where
  "FIFO_scan pageFrame bs frontIndex =
     (if fixCount (pageFrame ! frontIndex) > 0
      then FIFO_scan pageFrame bs ((frontIndex + 1) mod bs)
      else Some frontIndex)"

declare FIFO_scan.simps [code]

definition FIFO :: "state \<Rightarrow> PageFrame \<Rightarrow> state outcome option" where
  "FIFO bm page =
     (case mgmtData bm of
        None \<Rightarrow> Some Undefined
      | Some pageFrame \<Rightarrow>
          if bufferSize bm = 0 then Some Undefined
          else
            (case FIFO_scan pageFrame (bufferSize bm) (rearIndex bm mod bufferSize bm) of
               None \<Rightarrow> None
             | Some frontIndex \<Rightarrow>
                 let bm1 = (if dirtyBit (pageFrame ! frontIndex) = 1
                            then persistPage bm (pageFrame ! frontIndex) else bm)
                 in Some (Returns (bm1\<lparr>mgmtData := Some (pageFrame[frontIndex := page])\<rparr>))))"

subsection \<open>LRU\<close>

text \<open>
  The first loop of \<^verbatim>\<open>LRU\<close> finds the first frame with \<open>fixCount = 0\<close>; the three
  assignments after it (\<^verbatim>\<open>leastHitIndex = 0; leastHitNum = pageFrame[0].hitNum; i = 1;\<close>)
  discard what it found, and the second loop compares the hit numbers of all frames.
\<close>

definition first_unfixed :: "PageFrame list \<Rightarrow> nat \<Rightarrow> nat \<times> int" where
  "first_unfixed pageFrame bs =
     (case find (\<lambda>i. fixCount (pageFrame ! i) = 0) [0..<bs] of
        None \<Rightarrow> (0, 0)
      | Some i \<Rightarrow> (i, hitNum (pageFrame ! i)))"

definition least_hit :: "PageFrame list \<Rightarrow> nat list \<Rightarrow> nat \<times> int \<Rightarrow> nat \<times> int" where
  "least_hit pageFrame is start =
     fold (\<lambda>i (leastHitIndex, leastHitNum).
             if \<not> (hitNum (pageFrame ! i) \<ge> leastHitNum)
             then (i, hitNum (pageFrame ! i))
             else (leastHitIndex, leastHitNum)) is start"

definition LRU_victim :: "PageFrame list \<Rightarrow> nat \<Rightarrow> nat" where
  "LRU_victim pageFrame bs =
     (let found = first_unfixed pageFrame bs;
          restart = (0, hitNum (pageFrame ! 0))
      in fst (least_hit pageFrame [1..<bs] restart))"

definition LRU :: "state \<Rightarrow> PageFrame \<Rightarrow> state outcome" where
  "LRU b_mgr page =
     (if pageFile b_mgr = None then Returns b_mgr
      else case mgmtData b_mgr of
        None \<Rightarrow> Undefined
      | Some pageFrame \<Rightarrow>
          if data page = None then Returns b_mgr
          else
            let leastHitIndex = LRU_victim pageFrame (bufferSize b_mgr);
                installed = (pageFrame ! leastHitIndex)
                  \<lparr>dirtyBit := dirtyBit page, hitNum := hitNum page, data := data page,
                   pageNum := pageNum page, fixCount := fixCount page\<rparr>;
                b1 = b_mgr\<lparr>mgmtData := Some (pageFrame[leastHitIndex := installed])\<rparr>
            in if \<not> (dirtyBit installed \<noteq> 1)
               then Returns
                 ((writeBlock (pageNum installed) (data installed) b1)
                    \<lparr>writeCount := writeCount b1 + 1\<rparr>)
               else Returns b1)"

subsection \<open>LRU-K\<close>

definition LRU_K_victim :: "PageFrame list \<Rightarrow> nat \<Rightarrow> nat" where
  "LRU_K_victim pageFrame bs =
     (let found = first_unfixed pageFrame bs
      in fst (least_hit pageFrame [fst found + 1..<bs] found))"

definition LRU_K :: "state \<Rightarrow> PageFrame \<Rightarrow> state outcome" where
  "LRU_K b_mgr page =
     (if pageFile b_mgr = None then Returns b_mgr
      else case mgmtData b_mgr of
        None \<Rightarrow> Undefined
      | Some pageFrame \<Rightarrow>
          if data page = None then Returns b_mgr
          else
            let leastHitIndex = LRU_K_victim pageFrame (bufferSize b_mgr);
                installed = (pageFrame ! leastHitIndex)
                  \<lparr>hitNum := hitNum page, data := data page, pageNum := pageNum page,
                   fixCount := fixCount page, dirtyBit := dirtyBit page\<rparr>;
                b1 = b_mgr\<lparr>mgmtData := Some (pageFrame[leastHitIndex := installed])\<rparr>
            in if dirtyBit installed \<noteq> 0
               then Returns
                 ((writeBlock (pageNum installed) (data installed) b1)
                    \<lparr>writeCount := writeCount b1 + 1\<rparr>)
               else Returns b1)"

subsection \<open>LFU\<close>

text \<open>
  The first loop of \<^verbatim>\<open>LFU\<close> tests \<^verbatim>\<open>pageFrame[leastFreqIndex].fixCount == 0\<close> with
  the same \<open>leastFreqIndex = lfuPointer\<close> at every iteration and leaves at the first
  success. \<open>lfuPointer\<close> is the last victim's index plus one, so the test reads one
  frame past the array when that victim was the last frame. The second loop goes once
  round the array from \<open>leastFreqIndex + 1\<close>, comparing reference counts only.
\<close>

definition LFU_start :: "PageFrame list \<Rightarrow> nat \<Rightarrow> nat \<Rightarrow> nat \<times> int" where
  "LFU_start pageFrame bs lfuP =
     (case find (\<lambda>i. fixCount (pageFrame ! lfuP) = 0) [0..<bs] of
        None \<Rightarrow> (lfuP, refNum (pageFrame ! 0))
      | Some i \<Rightarrow> (let x = lfuP + i; k = x mod bs in (k, refNum (pageFrame ! k))))"

definition LFU_least :: "PageFrame list \<Rightarrow> nat \<Rightarrow> nat \<times> int \<Rightarrow> nat \<times> int" where
  "LFU_least pageFrame bs start =
     fold (\<lambda>i (leastFreqIndex, leastFreqRef).
             if refNum (pageFrame ! i) < leastFreqRef
             then (i, refNum (pageFrame ! i))
             else (leastFreqIndex, leastFreqRef))
          (map (\<lambda>j. (fst start + 1 + j) mod bs) [0..<bs]) start"

definition LFU_victim :: "PageFrame list \<Rightarrow> nat \<Rightarrow> nat \<Rightarrow> nat" where
  "LFU_victim pageFrame bs lfuP = fst (LFU_least pageFrame bs (LFU_start pageFrame bs lfuP))"

definition LFU :: "state \<Rightarrow> PageFrame \<Rightarrow> state outcome" where
  "LFU b_mgr page =
     (case mgmtData b_mgr of
        None \<Rightarrow> Undefined
      | Some pageFrame \<Rightarrow>
          if bufferSize b_mgr = 0 \<or> length pageFrame \<le> lfuPointer b_mgr then Undefined
          else
            let leastFreqIndex = LFU_victim pageFrame (bufferSize b_mgr) (lfuPointer b_mgr);
                victim = pageFrame ! leastFreqIndex;
                b1 = (if \<not> (dirtyBit victim \<noteq> 0)
                      then (writeBlock (pageNum victim) (data victim) b_mgr)
                             \<lparr>writeCount := writeCount b_mgr + 1\<rparr>
                      else b_mgr);
                installed = victim
                  \<lparr>fixCount := fixCount page, data := data page, dirtyBit := dirtyBit page,
                   pageNum := pageNum page\<rparr>
            in Returns (b1\<lparr>lfuPointer := leastFreqIndex + 1,
                          mgmtData := Some (pageFrame[leastFreqIndex := installed])\<rparr>))"

subsection \<open>CLOCK\<close>

text \<open>
  \<^verbatim>\<open>for (; clockPointer % bufferSize != 0; clockPointer++)\<close>: the loop condition is
  false at once when the hand stands on a multiple of \<open>bufferSize\<close>, and the body
  indexes the array with \<open>clockPointer\<close> itself, which \<^verbatim>\<open>pinPage\<close> increments at
  every hit without reducing it.
\<close>

function CLOCK_loop :: "state \<Rightarrow> PageFrame \<Rightarrow> state outcome" where
  "CLOCK_loop b_mgr page =
     (case mgmtData b_mgr of
        None \<Rightarrow> Undefined
      | Some pageFrame \<Rightarrow>
          if bufferSize b_mgr = 0 then Undefined
          else if clockPointer b_mgr mod bufferSize b_mgr \<noteq> 0 then
            (if length pageFrame \<le> clockPointer b_mgr then Undefined
             else if hitNum (pageFrame ! clockPointer b_mgr) = 0 then
               (let victim = pageFrame ! clockPointer b_mgr;
                    b1 = (if dirtyBit victim \<noteq> 0
                          then writeBlock (pageNum victim) (data victim) b_mgr else b_mgr)
                in Returns (b1\<lparr>mgmtData := Some (pageFrame[clockPointer b_mgr := page])\<rparr>))
             else
               CLOCK_loop
                 (b_mgr\<lparr>mgmtData := Some (pageFrame[clockPointer b_mgr :=
                           (pageFrame ! clockPointer b_mgr)\<lparr>hitNum := 0\<rparr>]),
                         clockPointer := clockPointer b_mgr + 1\<rparr>) page)
          else Returns b_mgr)"
  by pat_completeness auto
termination
proof (relation "measure (\<lambda>(b, p). (bufferSize b - clockPointer b mod bufferSize b) mod bufferSize b)")
  show "wf (measure (\<lambda>(b, p). (bufferSize b - clockPointer b mod bufferSize b) mod bufferSize b))"
    by simp
next
  fix b_mgr :: state and page :: PageFrame and pageFrame
  assume bs: "bufferSize b_mgr \<noteq> 0" and nz: "clockPointer b_mgr mod bufferSize b_mgr \<noteq> 0"
  let ?n = "bufferSize b_mgr" and ?c = "clockPointer b_mgr"
  have lt: "?c mod ?n < ?n" using bs by simp
  have "(?n - Suc ?c mod ?n) mod ?n < (?n - ?c mod ?n) mod ?n"
  proof (cases "Suc (?c mod ?n) = ?n")
    case True
    then have "Suc ?c mod ?n = 0" by (simp add: mod_Suc)
    with nz lt show ?thesis by simp
  next
    case False
    then have "Suc ?c mod ?n = Suc (?c mod ?n)" by (simp add: mod_Suc)
    with nz lt False show ?thesis by simp
  qed
  then show "((b_mgr\<lparr>mgmtData := Some (pageFrame[?c := (pageFrame ! ?c)\<lparr>hitNum := 0\<rparr>]),
                    clockPointer := ?c + 1\<rparr>, page), (b_mgr, page))
             \<in> measure (\<lambda>(b, p). (bufferSize b - clockPointer b mod bufferSize b) mod bufferSize b)"
    by simp
qed

definition CLOCK :: "state \<Rightarrow> PageFrame \<Rightarrow> state outcome" where
  "CLOCK b_mgr page =
     (case CLOCK_loop b_mgr page of
        Undefined \<Rightarrow> Undefined
      | Returns b1 \<Rightarrow> Returns (b1\<lparr>clockPointer := (clockPointer b1 + 1) mod bufferSize b1\<rparr>))"


declare CLOCK_loop.simps [simp del]

section \<open>Closing and flushing the pool\<close>

text \<open>
  \<^verbatim>\<open>forceFlushPool\<close>: the first loop collects the page numbers of the frames with
  \<open>fixCount = 0\<close> and \<open>dirtyBit = 1\<close>, clears their dirty bits and counts them; the second
  loop writes entry \<open>i\<close> of that list with the buffer \<^verbatim>\<open>pFrames[i].data\<close>, the data of
  frame \<open>i\<close>.
\<close>

definition flush_collect :: "nat \<Rightarrow> state \<times> PageFrame list \<times> PageNumber list
    \<Rightarrow> state \<times> PageFrame list \<times> PageNumber list" where
  "flush_collect i acc =
     (case acc of (bPool, pFrames, pagesToWrite) \<Rightarrow>
        if fixCount (pFrames ! i) = 0 \<and> dirtyBit (pFrames ! i) = 1
        then (bPool\<lparr>writeCount := writeCount bPool + 1\<rparr>,
              pFrames[i := (pFrames ! i)\<lparr>dirtyBit := 0\<rparr>],
              pagesToWrite @ [pageNum (pFrames ! i)])
        else (bPool, pFrames, pagesToWrite))"

definition forceFlushPool :: "state \<Rightarrow> RC \<times> state" where
  "forceFlushPool bPool =
     (case mgmtData bPool of
        None \<Rightarrow> (RC_ERROR, bPool)
      | Some pFrames0 \<Rightarrow>
          (case fold flush_collect [0..<numPages bPool] (bPool, pFrames0, []) of
             (b1, pFrames, pagesToWrite) \<Rightarrow>
               (RC_OK,
                fold (\<lambda>i b. writeBlock (pagesToWrite ! i) (data (pFrames ! i)) b)
                     [0..<length pagesToWrite]
                     (b1\<lparr>mgmtData := Some pFrames\<rparr>))))"

definition shutdownBufferPool :: "state \<Rightarrow> RC \<times> state" where
  "shutdownBufferPool b_mgr =
     (case mgmtData b_mgr of
        None \<Rightarrow> (RC_BUFFER_POOL_SHUTDOWN_ERROR, b_mgr)
      | Some pageFrame \<Rightarrow>
          (case find (\<lambda>i. fixCount (pageFrame ! i) \<noteq> 0) [0..<bufferSize b_mgr] of
             Some i \<Rightarrow> (RC_PINNED_PAGES_IN_BUFFER, b_mgr)
           | None \<Rightarrow> (RC_OK, (snd (forceFlushPool b_mgr))\<lparr>mgmtData := None\<rparr>)))"

section \<open>Marking, unpinning and forcing a page\<close>

text \<open>
  \<^verbatim>\<open>markDirty\<close> and \<^verbatim>\<open>forcePage\<close> do not test \<open>mgmtData\<close>: on a closed pool their
  loop reads through the NULL pointer as soon as it runs once.
\<close>

definition markDirty :: "state \<Rightarrow> PageNumber \<Rightarrow> (RC \<times> state) outcome" where
  "markDirty b_mgr pn =
     (case mgmtData b_mgr of
        None \<Rightarrow> if bufferSize b_mgr = 0 then Returns (RC_ERROR, b_mgr) else Undefined
      | Some pageFrame \<Rightarrow>
          (case find (\<lambda>i. pageNum (pageFrame ! i) = pn) [0..<bufferSize b_mgr] of
             Some i \<Rightarrow>
               Returns (RC_OK,
                 b_mgr\<lparr>mgmtData := Some (pageFrame[i := (pageFrame ! i)\<lparr>dirtyBit := 1\<rparr>])\<rparr>)
           | None \<Rightarrow> Returns (RC_ERROR, b_mgr)))"

definition unpinPage :: "state \<Rightarrow> PageNumber \<Rightarrow> RC \<times> state" where
  "unpinPage b_mgr pn =
     (case mgmtData b_mgr of
        None \<Rightarrow> (RC_POOL_NOT_OPEN, b_mgr)
      | Some frameOfPage \<Rightarrow>
          (case find (\<lambda>j. pageNum (frameOfPage ! j) = pn) [0..<numPages b_mgr] of
             Some j \<Rightarrow>
               if fixCount (frameOfPage ! j) > 0
               then (RC_OK,
                     b_mgr\<lparr>mgmtData := Some (frameOfPage[j :=
                        (frameOfPage ! j)\<lparr>fixCount := fixCount (frameOfPage ! j) - 1\<rparr>])\<rparr>)
               else (RC_PAGE_NOT_PINNED, b_mgr)
           | None \<Rightarrow> (RC_PAGE_NOT_IN_FRAMELIST, b_mgr)))"

definition forcePage :: "state \<Rightarrow> PageNumber \<Rightarrow> (RC \<times> state) outcome" where
  "forcePage b_mgr pn =
     (case mgmtData b_mgr of
        None \<Rightarrow>
          if bufferSize b_mgr = 0 then Returns (RC_PAGE_NOT_IN_FRAMELIST, b_mgr) else Undefined
      | Some pageFrame \<Rightarrow>
          (case find (\<lambda>i. \<not> (pageNum (pageFrame ! i) \<noteq> pn)) [0..<bufferSize b_mgr] of
             Some i \<Rightarrow>
               (let b1 = writeBlock (pageNum (pageFrame ! i)) (data (pageFrame ! i)) b_mgr
                in Returns (RC_OK,
                     b1\<lparr>mgmtData := Some (pageFrame[i := (pageFrame ! i)\<lparr>dirtyBit := 0\<rparr>]),
                        writeCount := writeCount b1 + 1\<rparr>))
           | None \<Rightarrow> Returns (RC_PAGE_NOT_IN_FRAMELIST, b_mgr)))"

section \<open>Pinning a page\<close>

definition isPageFrameEmpty :: "PageFrame \<Rightarrow> bool" where
  "isPageFrameEmpty frame = (pageNum frame = - 1)"

text \<open>
  The four blocks of \<^verbatim>\<open>pinPage\<close>. \<open>pin_first\<close> is the \<^verbatim>\<open>else\<close> branch taken when
  frame 0 is empty; \<open>pin_empty_frame\<close> loads the page into the empty frame \<open>j\<close> met by the
  loop; \<open>pin_resident\<close> is the hit on frame \<open>j\<close>; \<open>pin_replace\<close> builds \<^verbatim>\<open>newPage\<close>
  and calls the strategy when the loop has met neither. The page handle written through
  the \<^verbatim>\<open>page\<close> parameter (the page number and the data pointer) is not part of the
  state and is left out.
\<close>

definition pin_first :: "state \<Rightarrow> PageFrame list \<Rightarrow> PageNumber \<Rightarrow> state" where
  "pin_first b_mgr frameOfPage pn =
     (case readBlock pn (b_mgr\<lparr>rearIndex := 0\<rparr>) of
        (pageData, b1) \<Rightarrow>
          b1\<lparr>hit := 0,
             mgmtData := Some (frameOfPage[0 := (frameOfPage ! 0)
               \<lparr>data := pageData, pageNum := pn,
                fixCount := fixCount (frameOfPage ! 0) + 1, hitNum := 0, refNum := 0\<rparr>])\<rparr>)"

definition pin_empty_frame :: "state \<Rightarrow> PageFrame list \<Rightarrow> nat \<Rightarrow> PageNumber \<Rightarrow> state" where
  "pin_empty_frame b_mgr frameOfPage j pn =
     (case readBlock pn b_mgr of
        (pageData, b1) \<Rightarrow>
          let b2 = b1\<lparr>rearIndex := rearIndex b1 + 1, hit := hit b1 + 1\<rparr>;
              f1 = (frameOfPage ! j)\<lparr>data := pageData\<rparr>;
              f2 = (if strategy b2 = RS_CLOCK then f1\<lparr>hitNum := 1\<rparr>
                    else if strategy b2 = RS_LRU then f1\<lparr>hitNum := int (hit b2)\<rparr>
                    else f1)
          in b2\<lparr>mgmtData := Some (frameOfPage[j :=
                  f2\<lparr>refNum := 0, pageNum := pn, fixCount := 1\<rparr>])\<rparr>)"

definition pin_resident :: "state \<Rightarrow> PageFrame list \<Rightarrow> nat \<Rightarrow> state" where
  "pin_resident b_mgr frameOfPage j =
     (let f1 = (frameOfPage ! j)\<lparr>fixCount := fixCount (frameOfPage ! j) + 1\<rparr>;
          b1 = b_mgr\<lparr>hit := hit b_mgr + 1\<rparr>;
          f2 = (case strategy b1 of
                  RS_CLOCK \<Rightarrow> f1\<lparr>hitNum := 1\<rparr>
                | RS_LFU \<Rightarrow> f1\<lparr>refNum := refNum f1 + 1\<rparr>
                | RS_LRU \<Rightarrow> f1\<lparr>hitNum := int (hit b1)\<rparr>
                | RS_LRU_K \<Rightarrow> f1\<lparr>hitNum := int (hit b1)\<rparr>
                | RS_FIFO \<Rightarrow> f1)
      in b1\<lparr>clockPointer := clockPointer b1 + 1,
            mgmtData := Some (frameOfPage[j := f2])\<rparr>)"

definition newPage_of :: "state \<Rightarrow> SM_PageHandle \<Rightarrow> PageNumber \<Rightarrow> PageFrame" where
  "newPage_of b_mgr pageData pn =
     \<lparr>data = pageData, pageNum = pn, dirtyBit = 0, fixCount = 1,
      hitNum = (if strategy b_mgr = RS_LRU_K \<or> strategy b_mgr = RS_LRU then int (hit b_mgr)
                else if strategy b_mgr = RS_CLOCK then 1
                else uninit b_mgr),
      refNum = 0\<rparr>"

definition pin_replace :: "state \<Rightarrow> PageNumber \<Rightarrow> state outcome option" where
  "pin_replace b_mgr pn =
     (case readBlock pn b_mgr of
        (pageData, b1) \<Rightarrow>
          let b2 = b1\<lparr>hit := hit b1 + 1, rearIndex := rearIndex b1 + 1\<rparr>;
              newPage = newPage_of b2 pageData pn
          in (case strategy b2 of
                RS_FIFO \<Rightarrow> FIFO b2 newPage
              | RS_LRU \<Rightarrow> Some (LRU b2 newPage)
              | RS_CLOCK \<Rightarrow> Some (CLOCK b2 newPage)
              | RS_LFU \<Rightarrow> Some (LFU b2 newPage)
              | RS_LRU_K \<Rightarrow> Some (LRU_K b2 newPage)))"

definition pinPage :: "state \<Rightarrow> PageNumber \<Rightarrow> (RC \<times> state) outcome option" where
  "pinPage b_mgr pn =
     (case mgmtData b_mgr of
        None \<Rightarrow> Some (Returns (RC_PAGE_NOT_PINNED, b_mgr))
      | Some frameOfPage \<Rightarrow>
          if pn < 0 then Some (Returns (RC_NEGATIVE_PAGE_NUM, b_mgr))
          else if frameOfPage = [] then Some Undefined
          else if \<not> isPageFrameEmpty (frameOfPage ! 0) then
            (case find (\<lambda>j. pageNum (frameOfPage ! j) = - 1 \<or> pageNum (frameOfPage ! j) = pn)
                       [0..<bufferSize b_mgr] of
               Some j \<Rightarrow>
                 if pageNum (frameOfPage ! j) = - 1
                 then Some (Returns (RC_OK, pin_empty_frame b_mgr frameOfPage j pn))
                 else Some (Returns (RC_OK, pin_resident b_mgr frameOfPage j))
             | None \<Rightarrow>
                 (case pin_replace b_mgr pn of
                    None \<Rightarrow> None
                  | Some Undefined \<Rightarrow> Some Undefined
                  | Some (Returns b1) \<Rightarrow> Some (Returns (RC_OK, b1))))
          else Some (Returns (RC_OK, pin_first b_mgr frameOfPage pn)))"

section \<open>Statistics\<close>

definition getNumReadIO :: "state \<Rightarrow> nat" where
  "getNumReadIO b_mgr = rearIndex b_mgr + 1"

definition getNumWriteIO :: "state \<Rightarrow> nat" where
  "getNumWriteIO b_mgr = writeCount b_mgr"


section \<open>Clients\<close>

text \<open>
  A client is a list of requests run one after the other against the pool; the run stops
  at the first call that does not return. \<open>startup\<close> is the program before
  \<^verbatim>\<open>initBufferPool\<close>: the globals hold their static initialisers and page \<open>n\<close> of the
  page file holds \<open>n\<close> letters \<open>x\<close>, so that different pages differ.
\<close>

definition startup :: state where
  "startup =
     \<lparr>bufferSize = 0, rearIndex = 0, writeCount = 0, hit = 0, clockPointer = 0,
      lfuPointer = 0, pageFile = None, numPages = 0, strategy = RS_FIFO, mgmtData = None,
      disk = (\<lambda>n. replicate (nat n) (CHR ''x'')), io = [], uninit = 0\<rparr>"

datatype request =
    Pin PageNumber
  | Unpin PageNumber
  | MarkDirty PageNumber
  | ForcePage PageNumber
  | FlushAll
  | Shutdown

fun request_step :: "state \<Rightarrow> request \<Rightarrow> (RC \<times> state) outcome option" where
  "request_step s (Pin n) = pinPage s n"
| "request_step s (Unpin n) = Some (Returns (unpinPage s n))"
| "request_step s (MarkDirty n) = Some (markDirty s n)"
| "request_step s (ForcePage n) = Some (forcePage s n)"
| "request_step s FlushAll = Some (Returns (forceFlushPool s))"
| "request_step s Shutdown = Some (Returns (shutdownBufferPool s))"

fun run :: "state \<Rightarrow> request list \<Rightarrow> (RC list \<times> state) outcome option" where
  "run s [] = Some (Returns ([], s))"
| "run s (r # rs) =
     (case request_step s r of
        None \<Rightarrow> None
      | Some Undefined \<Rightarrow> Some Undefined
      | Some (Returns (rc, s1)) \<Rightarrow>
          (case run s1 rs of
             None \<Rightarrow> None
           | Some Undefined \<Rightarrow> Some Undefined
           | Some (Returns (rcs, s2)) \<Rightarrow> Some (Returns (rc # rcs, s2))))"

definition frames :: "state \<Rightarrow> PageFrame list" where
  "frames s = (case mgmtData s of None \<Rightarrow> [] | Some fs \<Rightarrow> fs)"

definition writes :: "state \<Rightarrow> io_event list" where
  "writes s = filter (\<lambda>e. case e of WriteBlock n b \<Rightarrow> True | ReadBlock n \<Rightarrow> False) (io s)"

definition reads :: "state \<Rightarrow> io_event list" where
  "reads s = filter (\<lambda>e. case e of ReadBlock n \<Rightarrow> True | WriteBlock n b \<Rightarrow> False) (io s)"


section \<open>Reachable pool states\<close>

text \<open>
  The states a client can bring the pool to: \<^verbatim>\<open>initBufferPool\<close> with at least one
  frame, from any earlier state of the globals, followed by calls that return.
\<close>

inductive reachable :: "state \<Rightarrow> bool" where
  reach_init: "0 < n \<Longrightarrow> reachable (initBufferPool g pageFN n strat)"
| reach_pin: "reachable s \<Longrightarrow> pinPage s pn = Some (Returns (rc, s')) \<Longrightarrow> reachable s'"
| reach_unpin: "reachable s \<Longrightarrow> unpinPage s pn = (rc, s') \<Longrightarrow> reachable s'"
| reach_markDirty: "reachable s \<Longrightarrow> markDirty s pn = Returns (rc, s') \<Longrightarrow> reachable s'"
| reach_forcePage: "reachable s \<Longrightarrow> forcePage s pn = Returns (rc, s') \<Longrightarrow> reachable s'"
| reach_flush: "reachable s \<Longrightarrow> forceFlushPool s = (rc, s') \<Longrightarrow> reachable s'"
| reach_shutdown: "reachable s \<Longrightarrow> shutdownBufferPool s = (rc, s') \<Longrightarrow> reachable s'"

text \<open>
  The page numbers of the frames of an open pool: the empty frames (\<open>- 1\<close>) come after
  the occupied ones, and no page number other than \<open>- 1\<close> occurs twice.
\<close>

definition pageNums_ok :: "PageNumber list \<Rightarrow> bool" where
  "pageNums_ok pns \<longleftrightarrow>
     (\<forall>i j. i < j \<and> j < length pns \<and> pns ! i = - 1 \<longrightarrow> pns ! j = - 1) \<and>
     (\<forall>i j. i < length pns \<and> j < length pns \<and> i \<noteq> j \<and> pns ! i \<noteq> - 1 \<longrightarrow> pns ! i \<noteq> pns ! j)"

definition pool_inv :: "state \<Rightarrow> bool" where
  "pool_inv s \<longleftrightarrow>
     (case mgmtData s of
        None \<Rightarrow> True
      | Some fs \<Rightarrow>
          bufferSize s = length fs \<and> numPages s = length fs \<and> fs \<noteq> [] \<and>
          pageNums_ok (map pageNum fs))"

text \<open>The page numbers under which blocks were written, in order.\<close>

definition written_pages :: "io_event list \<Rightarrow> PageNumber list" where
  "written_pages es =
     concat (map (\<lambda>e. case e of WriteBlock n b \<Rightarrow> [n] | ReadBlock n \<Rightarrow> []) es)"

text \<open>The frames that \<^verbatim>\<open>forceFlushPool\<close> collects: dirty and not pinned.\<close>

definition flushable :: "PageFrame \<Rightarrow> bool" where
  "flushable f \<longleftrightarrow> fixCount f = 0 \<and> dirtyBit f = 1"


text \<open>
  What a replacement strategy may do to the pool when it is given \<open>page\<close>: it writes
  blocks, and puts the page number of \<open>page\<close> into at most one frame.
\<close>

definition replaces :: "state \<Rightarrow> PageFrame \<Rightarrow> state \<Rightarrow> bool" where
  "replaces b page b' \<longleftrightarrow>
     rearIndex b' = rearIndex b \<and> bufferSize b' = bufferSize b \<and> numPages b' = numPages b \<and>
     reads b' = reads b \<and>
     (case (mgmtData b, mgmtData b') of
        (Some fs, Some fs') \<Rightarrow> \<exists>k. map pageNum fs' = (map pageNum fs)[k := pageNum page]
      | _ \<Rightarrow> False)"

text \<open>
  A call that reads no block and leaves every frame's page number as it is (or closes the
  pool).
\<close>

definition same_pages :: "state \<Rightarrow> state \<Rightarrow> bool" where
  "same_pages s s' \<longleftrightarrow>
     rearIndex s' = rearIndex s \<and> reads s' = reads s \<and>
     (case mgmtData s' of
        None \<Rightarrow> True
      | Some fs' \<Rightarrow>
          (case mgmtData s of None \<Rightarrow> False | Some fs \<Rightarrow> map pageNum fs' = map pageNum fs))"

text \<open>
  The read counter and the trace: before the first block is read \<open>rearIndex\<close> is zero and
  frame 0 is empty; afterwards \<open>rearIndex + 1\<close> is the number of blocks read and frame 0
  is occupied.
\<close>

definition read_inv :: "state \<Rightarrow> bool" where
  "read_inv s \<longleftrightarrow>
     (if reads s = []
      then rearIndex s = 0 \<and>
           (case mgmtData s of None \<Rightarrow> True | Some fs \<Rightarrow> pageNum (fs ! 0) = - 1)
      else rearIndex s + 1 = length (reads s) \<and>
           (case mgmtData s of None \<Rightarrow> True | Some fs \<Rightarrow> pageNum (fs ! 0) \<noteq> - 1))"

text \<open>No frame has a negative pin count.\<close>

definition fix_inv :: "state \<Rightarrow> bool" where
  "fix_inv s \<longleftrightarrow> list_all (\<lambda>f. 0 \<le> fixCount f) (frames s)"
section \<open>Searching an index range\<close>

lemma find_upt_Some: "find P [0..<n] = Some k \<longleftrightarrow> k < n \<and> P k \<and> (\<forall>j<k. \<not> P j)"
  by (auto simp: find_Some_iff)

lemma find_upt_None: "find P [0..<n] = None \<longleftrightarrow> (\<forall>j<n. \<not> P j)"
  by (auto simp: find_None_iff)

lemma first_index_ex:
  assumes "\<exists>i<(n::nat). P i"
  shows "\<exists>k<n. P k \<and> (\<forall>j<k. \<not> P j)"
proof -
  from assms obtain i where i: "i < n" "P i" by blast
  define k where "k = (LEAST k. P k)"
  have 1: "P k" unfolding k_def using i(2) by (rule LeastI)
  have "k \<le> i" unfolding k_def using i(2) by (rule Least_le)
  then have 2: "k < n" using i(1) by simp
  have 3: "\<forall>j<k. \<not> P j" unfolding k_def using not_less_Least by blast
  from 1 2 3 show ?thesis by blast
qed

section \<open>Effect of flushing\<close>

lemma flush_collect_step:
  "flush_collect i (b, fs, ps) =
     (if flushable (fs ! i)
      then (b\<lparr>writeCount := writeCount b + 1\<rparr>, fs[i := (fs ! i)\<lparr>dirtyBit := 0\<rparr>],
            ps @ [pageNum (fs ! i)])
      else (b, fs, ps))"
  by (simp add: flush_collect_def flushable_def)

lemma nth_all: "map ((!) (map f xs)) [0..<length xs] = map f xs"
  using map_nth [of "map f xs"] by simp

lemma flush_collect_fold:
  "k \<le> length fs \<Longrightarrow>
   fold flush_collect [0..<k] (b, fs, ps) =
     (b\<lparr>writeCount := writeCount b + length (filter flushable (take k fs))\<rparr>,
      map (\<lambda>f. if flushable f then f\<lparr>dirtyBit := 0\<rparr> else f) (take k fs) @ drop k fs,
      ps @ map pageNum (filter flushable (take k fs)))"
proof (induction k)
  case 0
  then show ?case by simp
next
  case (Suc k)
  then have k: "k < length fs" by simp
  let ?g = "\<lambda>f. if flushable f then f\<lparr>dirtyBit := 0\<rparr> else f"
  have nth: "(map ?g (take k fs) @ drop k fs) ! k = fs ! k"
    using k by (simp add: nth_append)
  have upd: "(map ?g (take k fs) @ drop k fs)[k := v] = map ?g (take k fs) @ v # drop (Suc k) fs" for v
    using k by (simp add: list_update_append upd_conv_take_nth_drop)
  have dr: "drop k fs = fs ! k # drop (Suc k) fs"
    using k by (simp add: Cons_nth_drop_Suc)
  show ?case
    using Suc.IH k
    by (simp add: flush_collect_step nth upd take_Suc_conv_app_nth dr [symmetric])
qed

lemma write_fold_io:
  "io (fold (\<lambda>i b. writeBlock (p i) (d i) b) is b0) = io b0 @ map (\<lambda>i. WriteBlock (p i) (d i)) is"
  by (induction "is" arbitrary: b0) (simp_all add: writeBlock_def)

lemma write_fold_fields:
  "mgmtData (fold (\<lambda>i b. writeBlock (p i) (d i) b) is b0) = mgmtData b0 \<and>
   writeCount (fold (\<lambda>i b. writeBlock (p i) (d i) b) is b0) = writeCount b0 \<and>
   bufferSize (fold (\<lambda>i b. writeBlock (p i) (d i) b) is b0) = bufferSize b0 \<and>
   numPages (fold (\<lambda>i b. writeBlock (p i) (d i) b) is b0) = numPages b0 \<and>
   rearIndex (fold (\<lambda>i b. writeBlock (p i) (d i) b) is b0) = rearIndex b0"
  by (induction "is" arbitrary: b0) (simp_all add: writeBlock_def)

lemma written_pages_append: "written_pages (xs @ ys) = written_pages xs @ written_pages ys"
  by (simp add: written_pages_def)

lemma written_pages_writes: "written_pages (map (\<lambda>i. WriteBlock (p i) (d i)) is) = map p is"
  by (induction "is") (simp_all add: written_pages_def)

lemma forceFlushPool_effect:
  assumes "mgmtData s = Some fs" and "numPages s = length fs"
  shows "fst (forceFlushPool s) = RC_OK"
    and "mgmtData (snd (forceFlushPool s)) =
           Some (map (\<lambda>f. if flushable f then f\<lparr>dirtyBit := 0\<rparr> else f) fs)"
    and "writeCount (snd (forceFlushPool s)) = writeCount s + length (filter flushable fs)"
    and "written_pages (io (snd (forceFlushPool s))) =
           written_pages (io s) @ map pageNum (filter flushable fs)"
    and "bufferSize (snd (forceFlushPool s)) = bufferSize s"
    and "numPages (snd (forceFlushPool s)) = numPages s"
    and "rearIndex (snd (forceFlushPool s)) = rearIndex s"
  using assms
  by (simp_all add: forceFlushPool_def flush_collect_fold write_fold_io write_fold_fields
      written_pages_append written_pages_writes nth_all)

lemma find_fix_None:
  "length fs = n \<Longrightarrow> find (\<lambda>i. fixCount (fs ! i) \<noteq> 0) [0..<n] = None \<longleftrightarrow> (\<forall>f \<in> set fs. fixCount f = 0)"
  by (auto simp: find_upt_None all_set_conv_all_nth)

section \<open>Calls that return\<close>

lemma returned_caseE:
  assumes "case x of Some (Returns (a, b)) \<Rightarrow> P a b | _ \<Rightarrow> False"
  obtains a b where "x = Some (Returns (a, b))" and "P a b"
  using assms by (auto split: option.splits outcome.splits)

section \<open>What the replacement strategies change\<close>

lemma replaces_update:
  assumes "mgmtData b = Some fs" and "mgmtData b' = Some (fs[k := f])" and "pageNum f = pageNum page"
    and "rearIndex b' = rearIndex b" and "bufferSize b' = bufferSize b"
    and "numPages b' = numPages b" and "reads b' = reads b"
  shows "replaces b page b'"
proof -
  have "map pageNum (fs[k := f]) = (map pageNum fs)[k := pageNum page]"
    using assms(3) by (simp add: map_update)
  then show ?thesis using assms unfolding replaces_def by auto
qed

lemma replaces_same:
  assumes "mgmtData b = Some fs" and "mgmtData b' = Some fs"
    and "rearIndex b' = rearIndex b" and "bufferSize b' = bufferSize b"
    and "numPages b' = numPages b" and "reads b' = reads b"
  shows "replaces b page b'"
proof -
  have "map pageNum fs = (map pageNum fs)[length fs := pageNum page]"
    by (simp add: list_update_beyond)
  then show ?thesis using assms unfolding replaces_def by auto
qed

lemma reads_writeBlock [simp]: "reads (writeBlock n d b) = reads b"
  by (simp add: reads_def writeBlock_def)

lemma reads_fields [simp]:
  "reads (b\<lparr>mgmtData := m\<rparr>) = reads b" "reads (b\<lparr>writeCount := w\<rparr>) = reads b"
  "reads (b\<lparr>lfuPointer := l\<rparr>) = reads b" "reads (b\<lparr>clockPointer := c\<rparr>) = reads b"
  by (simp_all add: reads_def)

lemma writeBlock_fields [simp]:
  "mgmtData (writeBlock n d b) = mgmtData b" "rearIndex (writeBlock n d b) = rearIndex b"
  "bufferSize (writeBlock n d b) = bufferSize b" "numPages (writeBlock n d b) = numPages b"
  "writeCount (writeBlock n d b) = writeCount b" "clockPointer (writeBlock n d b) = clockPointer b"
  "lfuPointer (writeBlock n d b) = lfuPointer b" "strategy (writeBlock n d b) = strategy b"
  by (simp_all add: writeBlock_def)

lemma FIFO_replaces: "FIFO b page = Some (Returns b') \<Longrightarrow> replaces b page b'"
  by (auto simp: FIFO_def persistPage_def Let_def split: option.splits if_splits
      intro!: replaces_update [where f = page])

lemma LRU_replaces:
  "mgmtData b = Some fs \<Longrightarrow> LRU b page = Returns b' \<Longrightarrow> replaces b page b'"
  by (auto simp: LRU_def Let_def split: if_splits
      intro: replaces_same replaces_update)

lemma LRU_K_replaces:
  "mgmtData b = Some fs \<Longrightarrow> LRU_K b page = Returns b' \<Longrightarrow> replaces b page b'"
  by (auto simp: LRU_K_def Let_def split: if_splits
      intro: replaces_same replaces_update)

lemma LFU_replaces:
  "mgmtData b = Some fs \<Longrightarrow> LFU b page = Returns b' \<Longrightarrow> replaces b page b'"
  by (auto simp: LFU_def Let_def split: if_splits
      intro: replaces_same replaces_update)

lemma replaces_after_reset:
  assumes "mgmtData b = Some fs" and "c < length fs"
    and "replaces (b\<lparr>mgmtData := Some (fs[c := (fs ! c)\<lparr>hitNum := 0\<rparr>]), clockPointer := c + 1\<rparr>) page b'"
  shows "replaces b page b'"
proof -
  have "map pageNum (fs[c := (fs ! c)\<lparr>hitNum := 0\<rparr>]) = map pageNum fs"
    using assms(2) by (simp add: map_update list_update_same_conv)
  then show ?thesis using assms(1,3) unfolding replaces_def
    by (auto split: option.splits)
qed

lemma CLOCK_loop_open:
  "mgmtData b = Some fs \<Longrightarrow>
   CLOCK_loop b page =
     (if bufferSize b = 0 then Undefined
      else if clockPointer b mod bufferSize b \<noteq> 0 then
        (if length fs \<le> clockPointer b then Undefined
         else if hitNum (fs ! clockPointer b) = 0 then
           Returns ((if dirtyBit (fs ! clockPointer b) \<noteq> 0
                     then writeBlock (pageNum (fs ! clockPointer b)) (data (fs ! clockPointer b)) b
                     else b)\<lparr>mgmtData := Some (fs[clockPointer b := page])\<rparr>)
         else CLOCK_loop
                (b\<lparr>mgmtData := Some (fs[clockPointer b := (fs ! clockPointer b)\<lparr>hitNum := 0\<rparr>]),
                   clockPointer := clockPointer b + 1\<rparr>) page)
      else Returns b)"
  by (subst CLOCK_loop.simps) (simp add: Let_def)

lemma CLOCK_loop_replaces:
  "mgmtData b = Some fs \<Longrightarrow> CLOCK_loop b page = Returns b' \<Longrightarrow> replaces b page b'"
proof (induction b page arbitrary: fs rule: CLOCK_loop.induct)
  case (1 b_mgr page)
  let ?c = "clockPointer b_mgr"
  let ?b2 = "b_mgr\<lparr>mgmtData := Some (fs[?c := (fs ! ?c)\<lparr>hitNum := 0\<rparr>]), clockPointer := ?c + 1\<rparr>"
  note m = "1.prems"(1)
  note r = "1.prems"(2) [unfolded CLOCK_loop_open [OF m]]
  consider (stop) "bufferSize b_mgr \<noteq> 0" "?c mod bufferSize b_mgr = 0"
    | (take) "bufferSize b_mgr \<noteq> 0" "?c mod bufferSize b_mgr \<noteq> 0" "?c < length fs" "hitNum (fs ! ?c) = 0"
    | (skip) "bufferSize b_mgr \<noteq> 0" "?c mod bufferSize b_mgr \<noteq> 0" "?c < length fs" "hitNum (fs ! ?c) \<noteq> 0"
    | (undef) "bufferSize b_mgr = 0 \<or> (?c mod bufferSize b_mgr \<noteq> 0 \<and> length fs \<le> ?c)"
    by fastforce
  then show ?case
  proof cases
    case stop
    with r have "b' = b_mgr" by simp
    with m show ?thesis by (auto intro: replaces_same)
  next
    case take
    with r have b': "b' = (if dirtyBit (fs ! ?c) \<noteq> 0
                     then writeBlock (pageNum (fs ! ?c)) (data (fs ! ?c)) b_mgr
                     else b_mgr)\<lparr>mgmtData := Some (fs[?c := page])\<rparr>" by simp
    show ?thesis
      by (rule replaces_update [OF m, where k = ?c and f = page]) (simp_all add: b')
  next
    case skip
    from skip(3) have nl: "\<not> length fs \<le> ?c" by simp
    from skip r have l2: "CLOCK_loop ?b2 page = Returns b'" by simp
    have m2: "mgmtData ?b2 = Some (fs[?c := (fs ! ?c)\<lparr>hitNum := 0\<rparr>])" by simp
    have "replaces ?b2 page b'"
      by (rule "1.IH" [OF m skip(1) skip(2) nl skip(4) m2 l2])
    with m skip(3) show ?thesis by (rule replaces_after_reset)
  next
    case undef
    with r show ?thesis by (auto split: if_splits)
  qed
qed

lemma replaces_clockPointer:
  "replaces b page b1 \<Longrightarrow> replaces b page (b1\<lparr>clockPointer := c\<rparr>)"
  by (simp add: replaces_def)

lemma CLOCK_replaces:
  assumes "mgmtData b = Some fs" and "CLOCK b page = Returns b'"
  shows "replaces b page b'"
proof (cases "CLOCK_loop b page")
  case (Returns b1)
  with assms(2) have "b' = b1\<lparr>clockPointer := (clockPointer b1 + 1) mod bufferSize b1\<rparr>"
    by (simp add: CLOCK_def)
  moreover have "replaces b page b1" using assms(1) Returns by (rule CLOCK_loop_replaces)
  ultimately show ?thesis by (simp add: replaces_clockPointer)
next
  case Undefined
  with assms(2) show ?thesis by (simp add: CLOCK_def)
qed

lemma pin_replace_effect:
  assumes m: "mgmtData b = Some fs" and r: "pin_replace b pn = Some (Returns b')"
  shows "rearIndex b' = rearIndex b + 1 \<and> reads b' = reads b @ [ReadBlock pn] \<and>
         bufferSize b' = bufferSize b \<and> numPages b' = numPages b \<and>
         (\<exists>fs' k. mgmtData b' = Some fs' \<and> map pageNum fs' = (map pageNum fs)[k := pn])"
proof -
  let ?b2 = "(b\<lparr>io := io b @ [ReadBlock pn]\<rparr>)\<lparr>hit := hit b + 1, rearIndex := rearIndex b + 1\<rparr>"
  let ?np = "newPage_of ?b2 (Some (disk b pn)) pn"
  have m2: "mgmtData ?b2 = Some fs" using m by simp
  have "replaces ?b2 ?np b'"
  proof (cases "strategy b")
    case RS_FIFO
    with r have "FIFO ?b2 ?np = Some (Returns b')" by (simp add: pin_replace_def readBlock_def Let_def)
    then show ?thesis by (rule FIFO_replaces)
  next
    case RS_LRU
    with r have "LRU ?b2 ?np = Returns b'" by (simp add: pin_replace_def readBlock_def Let_def)
    with m2 show ?thesis by (rule LRU_replaces)
  next
    case RS_CLOCK
    with r have "CLOCK ?b2 ?np = Returns b'" by (simp add: pin_replace_def readBlock_def Let_def)
    with m2 show ?thesis by (rule CLOCK_replaces)
  next
    case RS_LFU
    with r have "LFU ?b2 ?np = Returns b'" by (simp add: pin_replace_def readBlock_def Let_def)
    with m2 show ?thesis by (rule LFU_replaces)
  next
    case RS_LRU_K
    with r have "LRU_K ?b2 ?np = Returns b'" by (simp add: pin_replace_def readBlock_def Let_def)
    with m2 show ?thesis by (rule LRU_K_replaces)
  qed
  moreover have "pageNum ?np = pn" by (simp add: newPage_of_def)
  moreover have "reads ?b2 = reads b @ [ReadBlock pn]" by (simp add: reads_def)
  ultimately show ?thesis using m
    by (auto simp: replaces_def split: option.splits)
qed

text \<open>The FIFO scan stops only on a frame that is not pinned.\<close>

lemma FIFO_scan_unpinned:
  assumes "FIFO_scan fs bs i = Some y"
  shows "i < bs \<longrightarrow> y < bs \<and> fixCount (fs ! y) \<le> 0"
proof (rule FIFO_scan.raw_induct
    [where P = "\<lambda>fs bs i y. i < bs \<longrightarrow> y < bs \<and> fixCount (fs ! y) \<le> 0", OF _ assms])
  fix scan :: "PageFrame list \<Rightarrow> nat \<Rightarrow> nat \<Rightarrow> nat option" and fs bs i y
  assume IH: "\<And>fs bs i y. scan fs bs i = Some y \<Longrightarrow> i < bs \<longrightarrow> y < bs \<and> fixCount (fs ! y) \<le> 0"
    and eq: "(if 0 < fixCount (fs ! i) then scan fs bs ((i + 1) mod bs) else Some i) = Some y"
  show "i < bs \<longrightarrow> y < bs \<and> fixCount (fs ! y) \<le> 0"
  proof (cases "0 < fixCount (fs ! i)")
    case True
    with eq have "scan fs bs ((i + 1) mod bs) = Some y" by simp
    then have "(i + 1) mod bs < bs \<longrightarrow> y < bs \<and> fixCount (fs ! y) \<le> 0" by (rule IH)
    then show ?thesis by auto
  next
    case False
    with eq show ?thesis by auto
  qed
qed

lemma FIFO_scan_all_pinned:
  assumes "\<forall>k<bs. 0 < fixCount (fs ! k)" and "i < bs"
  shows "FIFO_scan fs bs i = None"
proof (cases "FIFO_scan fs bs i")
  case None
  then show ?thesis .
next
  case (Some y)
  then have "y < bs \<and> fixCount (fs ! y) \<le> 0" using FIFO_scan_unpinned assms(2) by blast
  with assms(1) show ?thesis by force
qed

section \<open>The page numbers of the frames\<close>

lemma pageNums_ok_replace:
  assumes "pageNums_ok pns" and "\<forall>i<length pns. pns ! i \<noteq> - 1 \<and> pns ! i \<noteq> p" and "p \<noteq> - 1"
  shows "pageNums_ok (pns[k := p])"
proof -
  have full: "(pns[k := p]) ! i \<noteq> - 1" if "i < length pns" for i
    using that assms(2,3)
    by (cases "k < length pns") (auto simp: nth_list_update list_update_beyond)
  have diff: "(pns[k := p]) ! i \<noteq> (pns[k := p]) ! l"
    if "i < length pns" "l < length pns" "i \<noteq> l" for i l
  proof -
    have "pns ! i \<noteq> pns ! l" using assms(1,2) that unfolding pageNums_ok_def by simp
    moreover have "pns ! i \<noteq> p" "pns ! l \<noteq> p" using assms(2) that by simp_all
    ultimately show ?thesis using that
      by (cases "k < length pns") (auto simp: nth_list_update list_update_beyond)
  qed
  show ?thesis unfolding pageNums_ok_def using full diff by auto
qed

lemma pageNums_ok_fill:
  assumes "pageNums_ok pns" and "j < length pns" and "pns ! j = - 1"
    and "\<forall>i<j. pns ! i \<noteq> - 1 \<and> pns ! i \<noteq> p" and "p \<noteq> - 1"
  shows "pageNums_ok (pns[j := p])"
proof -
  have after: "\<forall>i. j < i \<and> i < length pns \<longrightarrow> pns ! i = - 1"
    using assms(1,3) unfolding pageNums_ok_def by blast
  have before: "\<forall>i<j. pns ! i \<noteq> - 1 \<and> pns ! i \<noteq> p" by (rule assms(4))
  show ?thesis
    unfolding pageNums_ok_def
  proof (intro conjI allI impI)
    fix i l assume "i < l \<and> l < length (pns[j := p]) \<and> pns[j := p] ! i = - 1"
    then show "pns[j := p] ! l = - 1"
      using after before assms(2,5)
      by (metis length_list_update linorder_neqE_nat nth_list_update_eq nth_list_update_neq order_less_trans)
  next
    fix i l
    assume h: "i < length (pns[j := p]) \<and> l < length (pns[j := p]) \<and> i \<noteq> l \<and> pns[j := p] ! i \<noteq> - 1"
    show "pns[j := p] ! i \<noteq> pns[j := p] ! l"
    proof (cases "i = j")
      case True
      then have "l \<noteq> j" using h by simp
      then have "pns ! l \<noteq> p" using after before h assms(5) by (metis length_list_update linorder_neqE_nat)
      then show ?thesis using True h \<open>l \<noteq> j\<close> by simp
    next
      case False
      then have i: "pns ! i \<noteq> - 1" "i < length pns" using h by simp_all
      then have "i < j" using after False by (metis linorder_neqE_nat)
      then have "pns ! i \<noteq> p" using before by simp
      show ?thesis
      proof (cases "l = j")
        case True
        then show ?thesis using False h \<open>pns ! i \<noteq> p\<close> by simp
      next
        case lj: False
        have "pns ! i \<noteq> pns ! l" using assms(1) h i False unfolding pageNums_ok_def by simp
        then show ?thesis using False lj by simp
      qed
    qed
  qed
qed

lemma pageNums_ok_replicate: "pageNums_ok (replicate n (- 1))"
  by (simp add: pageNums_ok_def)

section \<open>The ways of pinning a page\<close>

lemma pin_first_effect:
  "rearIndex (pin_first s fs pn) = 0 \<and>
   reads (pin_first s fs pn) = reads s @ [ReadBlock pn] \<and>
   bufferSize (pin_first s fs pn) = bufferSize s \<and> numPages (pin_first s fs pn) = numPages s \<and>
   (\<exists>fs'. mgmtData (pin_first s fs pn) = Some fs' \<and>
          map pageNum fs' = (map pageNum fs)[0 := pn])"
  by (simp add: pin_first_def readBlock_def reads_def map_update)

lemma pin_empty_frame_effect:
  "rearIndex (pin_empty_frame s fs j pn) = rearIndex s + 1 \<and>
   reads (pin_empty_frame s fs j pn) = reads s @ [ReadBlock pn] \<and>
   bufferSize (pin_empty_frame s fs j pn) = bufferSize s \<and>
   numPages (pin_empty_frame s fs j pn) = numPages s \<and>
   (\<exists>fs'. mgmtData (pin_empty_frame s fs j pn) = Some fs' \<and>
          map pageNum fs' = (map pageNum fs)[j := pn])"
  by (simp add: pin_empty_frame_def readBlock_def reads_def map_update Let_def)

lemma pin_resident_effect:
  "j < length fs \<Longrightarrow>
   rearIndex (pin_resident s fs j) = rearIndex s \<and>
   reads (pin_resident s fs j) = reads s \<and>
   bufferSize (pin_resident s fs j) = bufferSize s \<and>
   numPages (pin_resident s fs j) = numPages s \<and>
   (\<exists>fs'. mgmtData (pin_resident s fs j) = Some fs' \<and> map pageNum fs' = map pageNum fs)"
  by (cases "strategy s")
     (simp_all add: pin_resident_def reads_def map_update Let_def list_update_same_conv)

text \<open>The five ways in which \<^verbatim>\<open>pinPage\<close> returns on an open pool.\<close>

lemma pinPage_open_cases:
  assumes m: "mgmtData s = Some fs" and b: "bufferSize s = length fs" and ne: "fs \<noteq> []"
    and r: "pinPage s pn = Some (Returns (rc, s'))"
  obtains
    (negative) "pn < 0" "rc = RC_NEGATIVE_PAGE_NUM" "s' = s"
  | (first) "0 \<le> pn" "pageNum (fs ! 0) = - 1" "rc = RC_OK" "s' = pin_first s fs pn"
  | (empty) j where "0 \<le> pn" "pageNum (fs ! 0) \<noteq> - 1" "j < length fs" "pageNum (fs ! j) = - 1"
      "\<forall>i<j. pageNum (fs ! i) \<noteq> - 1 \<and> pageNum (fs ! i) \<noteq> pn"
      "rc = RC_OK" "s' = pin_empty_frame s fs j pn"
  | (resident) j where "0 \<le> pn" "pageNum (fs ! 0) \<noteq> - 1" "j < length fs" "pageNum (fs ! j) = pn"
      "\<forall>i<j. pageNum (fs ! i) \<noteq> - 1 \<and> pageNum (fs ! i) \<noteq> pn"
      "rc = RC_OK" "s' = pin_resident s fs j"
  | (replace) "0 \<le> pn" "pageNum (fs ! 0) \<noteq> - 1"
      "\<forall>i<length fs. pageNum (fs ! i) \<noteq> - 1 \<and> pageNum (fs ! i) \<noteq> pn"
      "rc = RC_OK" "pin_replace s pn = Some (Returns s')"
proof (cases "pn < 0")
  case True
  with m r have "rc = RC_NEGATIVE_PAGE_NUM" "s' = s" by (simp_all add: pinPage_def)
  with True show ?thesis by (rule negative)
next
  case pos: False
  show ?thesis
  proof (cases "pageNum (fs ! 0) = - 1")
    case True
    with m r pos ne have "rc = RC_OK" "s' = pin_first s fs pn"
      by (simp_all add: pinPage_def isPageFrameEmpty_def)
    with pos True show ?thesis by (intro first) simp_all
  next
    case occ: False
    let ?P = "\<lambda>j. pageNum (fs ! j) = - 1 \<or> pageNum (fs ! j) = pn"
    show ?thesis
    proof (cases "find ?P [0..<length fs]")
      case None
      then have all: "\<forall>i<length fs. pageNum (fs ! i) \<noteq> - 1 \<and> pageNum (fs ! i) \<noteq> pn"
        by (simp add: find_upt_None)
      from None m r pos ne occ b have "rc = RC_OK \<and> pin_replace s pn = Some (Returns s')"
        by (auto simp: pinPage_def isPageFrameEmpty_def split: option.splits outcome.splits)
      with pos occ all show ?thesis by (intro replace) simp_all
    next
      case (Some j)
      then have j: "j < length fs" "?P j" "\<forall>i<j. \<not> ?P i" by (simp_all add: find_upt_Some)
      show ?thesis
      proof (cases "pageNum (fs ! j) = - 1")
        case True
        with Some m r pos ne occ b have "rc = RC_OK" "s' = pin_empty_frame s fs j pn"
          by (simp_all add: pinPage_def isPageFrameEmpty_def)
        with pos occ j True show ?thesis by (intro empty [of j]) simp_all
      next
        case False
        with Some m r pos ne occ b have "rc = RC_OK" "s' = pin_resident s fs j"
          by (simp_all add: pinPage_def isPageFrameEmpty_def)
        with pos occ j False show ?thesis by (intro resident [of j]) auto
      qed
    qed
  qed
qed

section \<open>The invariant of the reachable states\<close>

lemma pool_inv_step:
  assumes "pool_inv s" and "mgmtData s = Some fs" and "mgmtData s' = Some fs'"
    and "bufferSize s' = bufferSize s" and "numPages s' = numPages s"
    and "length fs' = length fs" and "pageNums_ok (map pageNum fs')"
  shows "pool_inv s'"
  using assms by (auto simp: pool_inv_def)

lemma pool_inv_same:
  assumes "pool_inv s" and "mgmtData s = Some fs" and "mgmtData s' = Some fs'"
    and "bufferSize s' = bufferSize s" and "numPages s' = numPages s"
    and "map pageNum fs' = map pageNum fs"
  shows "pool_inv s'"
proof -
  have "length fs' = length fs" using assms(6) by (rule map_eq_imp_length_eq)
  moreover have "pageNums_ok (map pageNum fs')" using assms by (simp add: pool_inv_def)
  ultimately show ?thesis using assms by (intro pool_inv_step [of s fs s' fs']) simp_all
qed

lemma pool_inv_closed: "mgmtData s = None \<Longrightarrow> pool_inv s"
  by (simp add: pool_inv_def)

lemma pool_inv_init: "0 < n \<Longrightarrow> pool_inv (initBufferPool g pageFN n strat)"
  by (simp add: pool_inv_def initBufferPool_def pageNums_ok_replicate)

lemma pool_inv_unpinPage:
  assumes "pool_inv s" and "unpinPage s pn = (rc, s')"
  shows "pool_inv s'"
proof (cases "mgmtData s")
  case None
  with assms show ?thesis by (simp add: unpinPage_def)
next
  case (Some fs)
  show ?thesis
  proof (cases "find (\<lambda>j. pageNum (fs ! j) = pn) [0..<numPages s]")
    case None
    with Some assms show ?thesis by (simp add: unpinPage_def)
  next
    case j: (Some j)
    then have "j < numPages s" by (simp add: find_upt_Some)
    then have jl: "j < length fs" using assms(1) Some by (simp add: pool_inv_def)
    show ?thesis
    proof (cases "fixCount (fs ! j) > 0")
      case True
      with Some j assms(2)
      have s': "s' = s\<lparr>mgmtData := Some (fs[j := (fs ! j)\<lparr>fixCount := fixCount (fs ! j) - 1\<rparr>])\<rparr>"
        by (simp add: unpinPage_def)
      show ?thesis
        by (rule pool_inv_same [OF assms(1) Some, of _ "fs[j := (fs ! j)\<lparr>fixCount := fixCount (fs ! j) - 1\<rparr>]"])
           (simp_all add: s' map_update list_update_same_conv jl)
    next
      case False
      with Some j assms show ?thesis by (simp add: unpinPage_def)
    qed
  qed
qed

lemma pool_inv_markDirty:
  assumes "pool_inv s" and "markDirty s pn = Returns (rc, s')"
  shows "pool_inv s'"
proof (cases "mgmtData s")
  case None
  with assms show ?thesis by (simp add: markDirty_def split: if_splits)
next
  case (Some fs)
  show ?thesis
  proof (cases "find (\<lambda>i. pageNum (fs ! i) = pn) [0..<bufferSize s]")
    case None
    with Some assms show ?thesis by (simp add: markDirty_def)
  next
    case j: (Some j)
    then have "j < bufferSize s" by (simp add: find_upt_Some)
    then have jl: "j < length fs" using assms(1) Some by (simp add: pool_inv_def)
    from Some j assms(2)
    have s': "s' = s\<lparr>mgmtData := Some (fs[j := (fs ! j)\<lparr>dirtyBit := 1\<rparr>])\<rparr>"
      by (simp add: markDirty_def)
    show ?thesis
      by (rule pool_inv_same [OF assms(1) Some, of _ "fs[j := (fs ! j)\<lparr>dirtyBit := 1\<rparr>]"])
         (simp_all add: s' map_update list_update_same_conv jl)
  qed
qed

lemma pool_inv_forcePage:
  assumes "pool_inv s" and "forcePage s pn = Returns (rc, s')"
  shows "pool_inv s'"
proof (cases "mgmtData s")
  case None
  with assms show ?thesis by (simp add: forcePage_def split: if_splits)
next
  case (Some fs)
  show ?thesis
  proof (cases "find (\<lambda>i. \<not> (pageNum (fs ! i) \<noteq> pn)) [0..<bufferSize s]")
    case None
    with Some assms show ?thesis by (simp add: forcePage_def)
  next
    case j: (Some j)
    then have "j < bufferSize s" by (simp add: find_upt_Some)
    then have jl: "j < length fs" using assms(1) Some by (simp add: pool_inv_def)
    from Some j assms(2)
    have s': "s' = (writeBlock (pageNum (fs ! j)) (data (fs ! j)) s)
        \<lparr>mgmtData := Some (fs[j := (fs ! j)\<lparr>dirtyBit := 0\<rparr>]),
         writeCount := writeCount (writeBlock (pageNum (fs ! j)) (data (fs ! j)) s) + 1\<rparr>"
      by (simp add: forcePage_def Let_def)
    show ?thesis
      by (rule pool_inv_same [OF assms(1) Some, of _ "fs[j := (fs ! j)\<lparr>dirtyBit := 0\<rparr>]"])
         (simp_all add: s' map_update list_update_same_conv jl)
  qed
qed

lemma pool_inv_forceFlushPool:
  assumes "pool_inv s" and "forceFlushPool s = (rc, s')"
  shows "pool_inv s'"
proof (cases "mgmtData s")
  case None
  with assms show ?thesis by (simp add: forceFlushPool_def)
next
  case (Some fs)
  then have n: "numPages s = length fs" using assms(1) by (simp add: pool_inv_def)
  have s': "s' = snd (forceFlushPool s)" using assms(2) by simp
  let ?fs' = "map (\<lambda>f. if flushable f then f\<lparr>dirtyBit := 0\<rparr> else f) fs"
  have mp: "map pageNum ?fs' = map pageNum fs"
    by (simp add: comp_def if_distrib cong: if_cong)
  note e = forceFlushPool_effect [OF Some n]
  show ?thesis
    unfolding s'
    by (rule pool_inv_same [OF assms(1) Some e(2) e(5) e(6) mp])
qed

lemma pool_inv_shutdownBufferPool:
  assumes "pool_inv s" and "shutdownBufferPool s = (rc, s')"
  shows "pool_inv s'"
proof (cases "mgmtData s")
  case None
  with assms show ?thesis by (simp add: shutdownBufferPool_def)
next
  case (Some fs)
  show ?thesis
  proof (cases "find (\<lambda>i. fixCount (fs ! i) \<noteq> 0) [0..<bufferSize s]")
    case None
    with Some assms(2) have "mgmtData s' = None" by (auto simp: shutdownBufferPool_def)
    then show ?thesis by (rule pool_inv_closed)
  next
    case (Some i)
    with \<open>mgmtData s = Some fs\<close> assms show ?thesis by (simp add: shutdownBufferPool_def)
  qed
qed

lemma pool_inv_pinPage:
  assumes inv: "pool_inv s" and r: "pinPage s pn = Some (Returns (rc, s'))"
  shows "pool_inv s'"
proof (cases "mgmtData s")
  case None
  with r show ?thesis using inv by (simp add: pinPage_def)
next
  case (Some fs)
  with inv have b: "bufferSize s = length fs" and ne: "fs \<noteq> []"
    and ok: "pageNums_ok (map pageNum fs)" by (simp_all add: pool_inv_def)
  from Some b ne r show ?thesis
  proof (cases rule: pinPage_open_cases)
    case negative
    with inv show ?thesis by simp
  next
    case first
    from pin_first_effect [of s fs pn] obtain fs' where
      fs': "mgmtData s' = Some fs'" "map pageNum fs' = (map pageNum fs)[0 := pn]"
      and bn: "bufferSize s' = bufferSize s" "numPages s' = numPages s"
      unfolding first(4) by blast
    have "pageNums_ok ((map pageNum fs)[0 := pn])"
      using ok ne first(1,2) by (intro pageNums_ok_fill) simp_all
    then have "pageNums_ok (map pageNum fs')" using fs'(2) by simp
    moreover have "length fs' = length fs"
      using fs'(2) by (metis length_list_update length_map)
    ultimately show ?thesis using inv Some fs'(1) bn by (intro pool_inv_step [of s fs s' fs'])
  next
    case (empty j)
    from pin_empty_frame_effect [of s fs j pn] obtain fs' where
      fs': "mgmtData s' = Some fs'" "map pageNum fs' = (map pageNum fs)[j := pn]"
      and bn: "bufferSize s' = bufferSize s" "numPages s' = numPages s"
      unfolding empty(7) by blast
    have "pageNums_ok ((map pageNum fs)[j := pn])"
      using ok empty(1,3,4,5) by (intro pageNums_ok_fill) simp_all
    then have "pageNums_ok (map pageNum fs')" using fs'(2) by simp
    moreover have "length fs' = length fs"
      using fs'(2) by (metis length_list_update length_map)
    ultimately show ?thesis using inv Some fs'(1) bn by (intro pool_inv_step [of s fs s' fs'])
  next
    case (resident j)
    from pin_resident_effect [OF resident(3), of s] obtain fs' where
      fs': "mgmtData s' = Some fs'" "map pageNum fs' = map pageNum fs"
      and bn: "bufferSize s' = bufferSize s" "numPages s' = numPages s"
      unfolding resident(7) by blast
    show ?thesis using inv Some fs' bn by (intro pool_inv_same [of s fs s' fs'])
  next
    case replace
    from pin_replace_effect [OF Some replace(5)] obtain fs' k where
      fs': "mgmtData s' = Some fs'" "map pageNum fs' = (map pageNum fs)[k := pn]"
      and bn: "bufferSize s' = bufferSize s" "numPages s' = numPages s"
      by blast
    have "pageNums_ok ((map pageNum fs)[k := pn])"
      using ok replace(1,3) by (intro pageNums_ok_replace) simp_all
    then have "pageNums_ok (map pageNum fs')" using fs'(2) by simp
    moreover have "length fs' = length fs"
      using fs'(2) by (metis length_list_update length_map)
    ultimately show ?thesis using inv Some fs'(1) bn by (intro pool_inv_step [of s fs s' fs'])
  qed
qed

lemma reachable_pool_inv: "reachable s \<Longrightarrow> pool_inv s"
proof (induction rule: reachable.induct)
  case (reach_init n g pageFN strat)
  then show ?case by (rule pool_inv_init)
next
  case (reach_pin s pn rc s')
  then show ?case by (auto intro: pool_inv_pinPage)
next
  case (reach_unpin s pn rc s')
  then show ?case by (auto intro: pool_inv_unpinPage)
next
  case (reach_markDirty s pn rc s')
  then show ?case by (auto intro: pool_inv_markDirty)
next
  case (reach_forcePage s pn rc s')
  then show ?case by (auto intro: pool_inv_forcePage)
next
  case (reach_flush s rc s')
  then show ?case by (auto intro: pool_inv_forceFlushPool)
next
  case (reach_shutdown s rc s')
  then show ?case by (auto intro: pool_inv_shutdownBufferPool)
qed

lemma request_step_reachable:
  assumes "reachable s" and "request_step s r = Some (Returns (rc, s'))"
  shows "reachable s'"
proof (cases r)
  case (Pin n)
  with assms show ?thesis by (auto intro: reach_pin)
next
  case (Unpin n)
  with assms show ?thesis by (auto intro: reach_unpin)
next
  case (MarkDirty n)
  with assms show ?thesis by (auto intro: reach_markDirty)
next
  case (ForcePage n)
  with assms show ?thesis by (auto intro: reach_forcePage)
next
  case FlushAll
  with assms show ?thesis by (auto intro: reach_flush)
next
  case Shutdown
  with assms show ?thesis by (auto intro: reach_shutdown)
qed

lemma run_reachable:
  "reachable s \<Longrightarrow> run s rs = Some (Returns (rcs, s')) \<Longrightarrow> reachable s'"
proof (induction rs arbitrary: s rcs)
  case Nil
  then show ?case by simp
next
  case (Cons r rs)
  from Cons.prems(2) obtain rc s1 rcs1 where
    1: "request_step s r = Some (Returns (rc, s1))" and
    2: "run s1 rs = Some (Returns (rcs1, s'))"
    by (auto split: option.splits outcome.splits)
  from Cons.prems(1) 1 have "reachable s1" by (rule request_step_reachable)
  then show ?case using 2 by (rule Cons.IH)
qed

section \<open>Calls that read no block\<close>

lemma same_pages_refl: "same_pages s s"
  by (simp add: same_pages_def split: option.splits)

lemma same_pages_unpinPage:
  assumes "pool_inv s" and "unpinPage s pn = (rc, s')"
  shows "same_pages s s'"
proof (cases "mgmtData s")
  case None
  with assms show ?thesis by (simp add: unpinPage_def same_pages_refl)
next
  case (Some fs)
  show ?thesis
  proof (cases "find (\<lambda>j. pageNum (fs ! j) = pn) [0..<numPages s]")
    case None
    with Some assms show ?thesis by (simp add: unpinPage_def same_pages_refl)
  next
    case j: (Some j)
    then have "j < numPages s" by (simp add: find_upt_Some)
    then have jl: "j < length fs" using assms(1) Some by (simp add: pool_inv_def)
    show ?thesis
    proof (cases "fixCount (fs ! j) > 0")
      case True
      with Some j assms(2)
      have "s' = s\<lparr>mgmtData := Some (fs[j := (fs ! j)\<lparr>fixCount := fixCount (fs ! j) - 1\<rparr>])\<rparr>"
        by (simp add: unpinPage_def)
      then show ?thesis using Some jl
        by (simp add: same_pages_def map_update list_update_same_conv)
    next
      case False
      with Some j assms show ?thesis by (simp add: unpinPage_def same_pages_refl)
    qed
  qed
qed

lemma same_pages_markDirty:
  assumes "pool_inv s" and "markDirty s pn = Returns (rc, s')"
  shows "same_pages s s'"
proof (cases "mgmtData s")
  case None
  with assms show ?thesis by (simp add: markDirty_def same_pages_refl split: if_splits)
next
  case (Some fs)
  show ?thesis
  proof (cases "find (\<lambda>i. pageNum (fs ! i) = pn) [0..<bufferSize s]")
    case None
    with Some assms show ?thesis by (simp add: markDirty_def same_pages_refl)
  next
    case j: (Some j)
    then have "j < bufferSize s" by (simp add: find_upt_Some)
    then have jl: "j < length fs" using assms(1) Some by (simp add: pool_inv_def)
    from Some j assms(2)
    have "s' = s\<lparr>mgmtData := Some (fs[j := (fs ! j)\<lparr>dirtyBit := 1\<rparr>])\<rparr>"
      by (simp add: markDirty_def)
    then show ?thesis using Some jl
      by (simp add: same_pages_def map_update list_update_same_conv)
  qed
qed

lemma same_pages_forcePage:
  assumes "pool_inv s" and "forcePage s pn = Returns (rc, s')"
  shows "same_pages s s'"
proof (cases "mgmtData s")
  case None
  with assms show ?thesis by (simp add: forcePage_def same_pages_refl split: if_splits)
next
  case (Some fs)
  show ?thesis
  proof (cases "find (\<lambda>i. \<not> (pageNum (fs ! i) \<noteq> pn)) [0..<bufferSize s]")
    case None
    with Some assms show ?thesis by (simp add: forcePage_def same_pages_refl)
  next
    case j: (Some j)
    then have "j < bufferSize s" by (simp add: find_upt_Some)
    then have jl: "j < length fs" using assms(1) Some by (simp add: pool_inv_def)
    from Some j assms(2)
    have "s' = (writeBlock (pageNum (fs ! j)) (data (fs ! j)) s)
        \<lparr>mgmtData := Some (fs[j := (fs ! j)\<lparr>dirtyBit := 0\<rparr>]),
         writeCount := writeCount (writeBlock (pageNum (fs ! j)) (data (fs ! j)) s) + 1\<rparr>"
      by (simp add: forcePage_def Let_def)
    then show ?thesis using Some jl
      by (simp add: same_pages_def map_update list_update_same_conv)
  qed
qed

lemma reads_write_fold:
  "reads (fold (\<lambda>i b. writeBlock (p i) (d i) b) is b0) = reads b0"
  by (induction "is" arbitrary: b0) simp_all

lemma forceFlushPool_reads:
  assumes "mgmtData s = Some fs" and "numPages s = length fs"
  shows "reads (snd (forceFlushPool s)) = reads s"
  using assms
  by (simp add: forceFlushPool_def flush_collect_fold reads_write_fold)

lemma same_pages_forceFlushPool:
  assumes "pool_inv s" and "forceFlushPool s = (rc, s')"
  shows "same_pages s s'"
proof (cases "mgmtData s")
  case None
  with assms show ?thesis by (simp add: forceFlushPool_def same_pages_refl)
next
  case (Some fs)
  then have n: "numPages s = length fs" using assms(1) by (simp add: pool_inv_def)
  have s': "s' = snd (forceFlushPool s)" using assms(2) by simp
  let ?fs' = "map (\<lambda>f. if flushable f then f\<lparr>dirtyBit := 0\<rparr> else f) fs"
  have mp: "map pageNum ?fs' = map pageNum fs"
    by (simp add: comp_def if_distrib cong: if_cong)
  note e = forceFlushPool_effect [OF Some n]
  show ?thesis
    unfolding s' same_pages_def using e(2) e(7) mp forceFlushPool_reads [OF Some n] Some
    by simp
qed

lemma same_pages_shutdownBufferPool:
  assumes "pool_inv s" and "shutdownBufferPool s = (rc, s')"
  shows "same_pages s s'"
proof (cases "mgmtData s")
  case None
  with assms show ?thesis by (simp add: shutdownBufferPool_def same_pages_refl)
next
  case (Some fs)
  then have n: "numPages s = length fs" using assms(1) by (simp add: pool_inv_def)
  show ?thesis
  proof (cases "find (\<lambda>i. fixCount (fs ! i) \<noteq> 0) [0..<bufferSize s]")
    case None
    with Some assms(2) have "s' = (snd (forceFlushPool s))\<lparr>mgmtData := None\<rparr>"
      by (auto simp: shutdownBufferPool_def)
    then show ?thesis
      using forceFlushPool_effect(7) [OF Some n] forceFlushPool_reads [OF Some n]
      by (simp add: same_pages_def reads_def)
  next
    case (Some i)
    with \<open>mgmtData s = Some fs\<close> assms show ?thesis
      by (simp add: shutdownBufferPool_def same_pages_refl)
  qed
qed

lemma read_inv_same_pages:
  assumes "read_inv s" and "pool_inv s" and "same_pages s s'"
  shows "read_inv s'"
proof (cases "mgmtData s'")
  case None
  with assms show ?thesis by (auto simp: read_inv_def same_pages_def split: if_splits)
next
  case (Some fs')
  with assms(3) obtain fs where fs: "mgmtData s = Some fs" "map pageNum fs' = map pageNum fs"
    by (auto simp: same_pages_def split: option.splits)
  with assms(2) have "fs \<noteq> []" by (simp add: pool_inv_def)
  then have "pageNum (fs' ! 0) = pageNum (fs ! 0)"
    using fs(2) by (metis length_greater_0_conv map_eq_imp_length_eq nth_map)
  with assms(1,3) Some fs(1) show ?thesis
    by (auto simp: read_inv_def same_pages_def split: if_splits)
qed

section \<open>The read counter along a run\<close>

lemma not_resident_before_empty:
  assumes "pageNums_ok pns" and "j < length pns" and "pns ! j = - 1"
    and "\<forall>i<j. pns ! i \<noteq> p" and "p \<noteq> - 1"
  shows "p \<notin> set pns"
proof
  assume "p \<in> set pns"
  then obtain i where i: "i < length pns" "pns ! i = p" by (auto simp: in_set_conv_nth)
  with assms(4,5,3) have "j < i" by (metis linorder_neqE_nat)
  with assms(1,3) i(1) have "pns ! i = - 1" unfolding pageNums_ok_def by blast
  with i(2) assms(5) show False by simp
qed

lemma pinPage_reads:
  assumes inv: "pool_inv s" and m: "mgmtData s = Some fs"
    and r: "pinPage s pn = Some (Returns (rc, s'))" and pos: "0 \<le> pn"
  shows "if pn \<in> pageNum ` set fs
         then reads s' = reads s \<and> rearIndex s' = rearIndex s
         else reads s' = reads s @ [ReadBlock pn] \<and>
              rearIndex s' = (if pageNum (fs ! 0) = - 1 then 0 else rearIndex s + 1)"
proof -
  from m inv have b: "bufferSize s = length fs" and ne: "fs \<noteq> []"
    and ok: "pageNums_ok (map pageNum fs)" by (simp_all add: pool_inv_def)
  have pn1: "pn \<noteq> - 1" using pos by simp
  from m b ne r show ?thesis
  proof (cases rule: pinPage_open_cases)
    case negative
    with pos show ?thesis by simp
  next
    case first
    have "pn \<notin> set (map pageNum fs)"
      using ok ne first(2) pn1 by (intro not_resident_before_empty [of _ 0]) simp_all
    then show ?thesis using first pin_first_effect [of s fs pn] by simp
  next
    case (empty j)
    have "pn \<notin> set (map pageNum fs)"
      using ok empty(3,4,5) pn1 by (intro not_resident_before_empty [of _ j]) simp_all
    then show ?thesis using empty pin_empty_frame_effect [of s fs j pn] by simp
  next
    case (resident j)
    then have "pn \<in> pageNum ` set fs" by (metis imageI nth_mem)
    then show ?thesis using resident pin_resident_effect [OF resident(3), of s] by simp
  next
    case replace
    then have "pn \<notin> pageNum ` set fs" by (auto simp: in_set_conv_nth)
    then show ?thesis using replace pin_replace_effect [OF m replace(5)] by simp
  qed
qed

lemma read_inv_pinPage:
  assumes inv: "pool_inv s" and ri: "read_inv s" and r: "pinPage s pn = Some (Returns (rc, s'))"
  shows "read_inv s'"
proof (cases "mgmtData s")
  case None
  with r ri show ?thesis by (simp add: pinPage_def)
next
  case (Some fs)
  with inv have b: "bufferSize s = length fs" and ne: "fs \<noteq> []"
    and ok: "pageNums_ok (map pageNum fs)" by (simp_all add: pool_inv_def)
  have len0: "0 < length fs" using ne by simp
  have empty0: "pageNum (fs ! 0) = - 1 \<Longrightarrow> reads s = [] \<and> rearIndex s = 0"
    using ri Some by (auto simp: read_inv_def split: if_splits)
  have occ0: "pageNum (fs ! 0) \<noteq> - 1 \<Longrightarrow> reads s \<noteq> [] \<and> rearIndex s + 1 = length (reads s)"
    using ri Some by (auto simp: read_inv_def split: if_splits)
  from Some b ne r show ?thesis
  proof (cases rule: pinPage_open_cases)
    case negative
    with ri show ?thesis by simp
  next
    case first
    from pin_first_effect [of s fs pn] obtain fs' where
      fs': "mgmtData s' = Some fs'" "map pageNum fs' = (map pageNum fs)[0 := pn]"
      and rd: "rearIndex s' = 0" "reads s' = reads s @ [ReadBlock pn]"
      unfolding first(4) by blast
    have "length fs' = length fs" using fs'(2) by (metis length_list_update length_map)
    then have "pageNum (fs' ! 0) = pn"
      using fs'(2) len0 by (metis length_map nth_list_update_eq nth_map)
    then show ?thesis using fs'(1) rd empty0 [OF first(2)] first(1)
      by (simp add: read_inv_def)
  next
    case (empty j)
    from pin_empty_frame_effect [of s fs j pn] obtain fs' where
      fs': "mgmtData s' = Some fs'" "map pageNum fs' = (map pageNum fs)[j := pn]"
      and rd: "rearIndex s' = rearIndex s + 1" "reads s' = reads s @ [ReadBlock pn]"
      unfolding empty(7) by blast
    have j0: "j \<noteq> 0"
    proof
      assume "j = 0"
      with empty(2,4) show False by simp
    qed
    have "length fs' = length fs" using fs'(2) by (metis length_list_update length_map)
    then have "pageNum (fs' ! 0) = pageNum (fs ! 0)"
      using fs'(2) len0 j0 by (metis length_map nth_list_update_neq nth_map)
    then show ?thesis using fs'(1) rd occ0 [OF empty(2)] empty(2)
      by (simp add: read_inv_def)
  next
    case (resident j)
    from pin_resident_effect [OF resident(3), of s] obtain fs' where
      fs': "mgmtData s' = Some fs'" "map pageNum fs' = map pageNum fs"
      and rd: "rearIndex s' = rearIndex s" "reads s' = reads s"
      unfolding resident(7) by blast
    have "same_pages s s'" using fs' rd Some by (simp add: same_pages_def)
    with ri inv show ?thesis by (rule read_inv_same_pages)
  next
    case replace
    from pin_replace_effect [OF Some replace(5)] obtain fs' k where
      fs': "mgmtData s' = Some fs'" "map pageNum fs' = (map pageNum fs)[k := pn]"
      and rd: "rearIndex s' = rearIndex s + 1" "reads s' = reads s @ [ReadBlock pn]"
      by blast
    have "length fs' = length fs" using fs'(2) by (metis length_list_update length_map)
    then have "pageNum (fs' ! 0) = pn \<or> pageNum (fs' ! 0) = pageNum (fs ! 0)"
      using fs'(2) len0 by (metis length_map nth_list_update_eq nth_list_update_neq nth_map)
    then have "pageNum (fs' ! 0) \<noteq> - 1" using replace(1,2) by auto
    then show ?thesis using fs'(1) rd occ0 [OF replace(2)]
      by (simp add: read_inv_def)
  qed
qed

lemma invs_request_step:
  assumes "pool_inv s" and "read_inv s" and "request_step s r = Some (Returns (rc, s'))"
  shows "pool_inv s' \<and> read_inv s'"
proof (cases r)
  case (Pin n)
  with assms show ?thesis by (auto intro: pool_inv_pinPage read_inv_pinPage)
next
  case (Unpin n)
  with assms show ?thesis
    by (auto intro: pool_inv_unpinPage read_inv_same_pages same_pages_unpinPage)
next
  case (MarkDirty n)
  with assms show ?thesis
    by (auto intro: pool_inv_markDirty read_inv_same_pages same_pages_markDirty)
next
  case (ForcePage n)
  with assms show ?thesis
    by (auto intro: pool_inv_forcePage read_inv_same_pages same_pages_forcePage)
next
  case FlushAll
  with assms show ?thesis
    by (auto intro: pool_inv_forceFlushPool read_inv_same_pages same_pages_forceFlushPool)
next
  case Shutdown
  with assms show ?thesis
    by (auto intro: pool_inv_shutdownBufferPool read_inv_same_pages same_pages_shutdownBufferPool)
qed

lemma invs_run:
  "pool_inv s \<Longrightarrow> read_inv s \<Longrightarrow> run s rs = Some (Returns (rcs, s')) \<Longrightarrow>
   pool_inv s' \<and> read_inv s'"
proof (induction rs arbitrary: s rcs)
  case Nil
  then show ?case by simp
next
  case (Cons r rs)
  from Cons.prems(3) obtain rc s1 rcs1 where
    1: "request_step s r = Some (Returns (rc, s1))" and
    2: "run s1 rs = Some (Returns (rcs1, s'))"
    by (auto split: option.splits outcome.splits)
  from Cons.prems(1,2) 1 have "pool_inv s1 \<and> read_inv s1" by (rule invs_request_step)
  then show ?case using 2 Cons.IH by blast
qed

lemma read_inv_init:
  "0 < n \<Longrightarrow> rearIndex g = 0 \<Longrightarrow> reads g = [] \<Longrightarrow> read_inv (initBufferPool g pageFN n strat)"
  by (simp add: read_inv_def initBufferPool_def reads_def)

section \<open>Pin counts are never negative\<close>

lemma fix_inv_frames: "mgmtData s = Some fs \<Longrightarrow> fix_inv s \<longleftrightarrow> (\<forall>f \<in> set fs. 0 \<le> fixCount f)"
  by (simp add: fix_inv_def frames_def list_all_iff)

lemma fix_inv_closed: "mgmtData s = None \<Longrightarrow> fix_inv s"
  by (simp add: fix_inv_def frames_def)

lemma fix_inv_update:
  assumes "fix_inv s" and "mgmtData s = Some fs" and "mgmtData s' = Some (fs[k := f])"
    and "0 \<le> fixCount f"
  shows "fix_inv s'"
proof -
  have "\<forall>x \<in> set (fs[k := f]). 0 \<le> fixCount x"
    using assms(1,2,4) set_update_subset_insert [of fs k f]
    by (auto simp: fix_inv_frames)
  then show ?thesis using assms(3) by (simp add: fix_inv_frames)
qed

lemma fix_inv_same:
  "fix_inv s \<Longrightarrow> mgmtData s' = mgmtData s \<Longrightarrow> fix_inv s'"
  by (simp add: fix_inv_def frames_def)

lemma fix_inv_init: "fix_inv (initBufferPool g pageFN n strat)"
  by (simp add: fix_inv_def frames_def initBufferPool_def list_all_iff)

lemma fix_inv_FIFO:
  "fix_inv b \<Longrightarrow> 0 \<le> fixCount page \<Longrightarrow> FIFO b page = Some (Returns b') \<Longrightarrow> fix_inv b'"
  by (auto simp: FIFO_def persistPage_def Let_def split: option.splits if_splits
      intro: fix_inv_update [where f = page])

lemma fix_inv_LRU:
  "fix_inv b \<Longrightarrow> 0 \<le> fixCount page \<Longrightarrow> LRU b page = Returns b' \<Longrightarrow> fix_inv b'"
  by (auto simp: LRU_def Let_def split: option.splits if_splits
      intro: fix_inv_update)

lemma fix_inv_LRU_K:
  "fix_inv b \<Longrightarrow> 0 \<le> fixCount page \<Longrightarrow> LRU_K b page = Returns b' \<Longrightarrow> fix_inv b'"
  by (auto simp: LRU_K_def Let_def split: option.splits if_splits
      intro: fix_inv_update)

lemma fix_inv_LFU:
  "fix_inv b \<Longrightarrow> 0 \<le> fixCount page \<Longrightarrow> LFU b page = Returns b' \<Longrightarrow> fix_inv b'"
  by (auto simp: LFU_def Let_def split: option.splits if_splits
      intro: fix_inv_update)

lemma fix_inv_CLOCK_loop:
  "fix_inv b \<Longrightarrow> 0 \<le> fixCount page \<Longrightarrow> CLOCK_loop b page = Returns b' \<Longrightarrow> fix_inv b'"
proof (induction b page rule: CLOCK_loop.induct)
  case (1 b_mgr page)
  show ?case
  proof (cases "mgmtData b_mgr")
    case None
    with "1.prems"(3) show ?thesis by (subst (asm) CLOCK_loop.simps) simp
  next
    case (Some fs)
    let ?c = "clockPointer b_mgr"
    let ?b2 = "b_mgr\<lparr>mgmtData := Some (fs[?c := (fs ! ?c)\<lparr>hitNum := 0\<rparr>]), clockPointer := ?c + 1\<rparr>"
    note r = "1.prems"(3) [unfolded CLOCK_loop_open [OF Some]]
    consider (stop) "bufferSize b_mgr \<noteq> 0" "?c mod bufferSize b_mgr = 0"
      | (take) "bufferSize b_mgr \<noteq> 0" "?c mod bufferSize b_mgr \<noteq> 0" "?c < length fs" "hitNum (fs ! ?c) = 0"
      | (skip) "bufferSize b_mgr \<noteq> 0" "?c mod bufferSize b_mgr \<noteq> 0" "?c < length fs" "hitNum (fs ! ?c) \<noteq> 0"
      | (undef) "bufferSize b_mgr = 0 \<or> (?c mod bufferSize b_mgr \<noteq> 0 \<and> length fs \<le> ?c)"
      by fastforce
    then show ?thesis
    proof cases
      case stop
      with r have "b' = b_mgr" by simp
      with "1.prems"(1) show ?thesis by simp
    next
      case take
      with r have b': "mgmtData b' = Some (fs[?c := page])" by (auto split: if_splits)
      show ?thesis by (rule fix_inv_update [OF "1.prems"(1) Some b' "1.prems"(2)])
    next
      case skip
      from skip(3) have nl: "\<not> length fs \<le> ?c" by simp
      from skip r have l2: "CLOCK_loop ?b2 page = Returns b'" by simp
      have "0 \<le> fixCount (fs ! ?c)"
        using "1.prems"(1) Some skip(3) by (simp add: fix_inv_frames)
      then have "fix_inv ?b2"
        by (intro fix_inv_update [OF "1.prems"(1) Some, of _ ?c "(fs ! ?c)\<lparr>hitNum := 0\<rparr>"]) simp_all
      then show ?thesis
        by (rule "1.IH" [OF Some skip(1) skip(2) nl skip(4) _ "1.prems"(2) l2])
    next
      case undef
      with r show ?thesis by (auto split: if_splits)
    qed
  qed
qed

lemma fix_inv_CLOCK:
  assumes "fix_inv b" and "0 \<le> fixCount page" and "CLOCK b page = Returns b'"
  shows "fix_inv b'"
proof (cases "CLOCK_loop b page")
  case (Returns b1)
  with assms(3) have b': "b' = b1\<lparr>clockPointer := (clockPointer b1 + 1) mod bufferSize b1\<rparr>"
    by (simp add: CLOCK_def)
  have "fix_inv b1" using assms(1,2) Returns by (rule fix_inv_CLOCK_loop)
  then show ?thesis unfolding b' by (rule fix_inv_same) simp
next
  case Undefined
  with assms(3) show ?thesis by (simp add: CLOCK_def)
qed

lemma fix_inv_pin_replace:
  assumes "fix_inv b" and r: "pin_replace b pn = Some (Returns b')"
  shows "fix_inv b'"
proof -
  let ?b2 = "(b\<lparr>io := io b @ [ReadBlock pn]\<rparr>)\<lparr>hit := hit b + 1, rearIndex := rearIndex b + 1\<rparr>"
  let ?np = "newPage_of ?b2 (Some (disk b pn)) pn"
  have f2: "fix_inv ?b2" using assms(1) by (rule fix_inv_same) simp
  have np: "0 \<le> fixCount ?np" by (simp add: newPage_of_def)
  show ?thesis
  proof (cases "strategy b")
    case RS_FIFO
    with r have "FIFO ?b2 ?np = Some (Returns b')" by (simp add: pin_replace_def readBlock_def Let_def)
    with f2 np show ?thesis by (rule fix_inv_FIFO)
  next
    case RS_LRU
    with r have "LRU ?b2 ?np = Returns b'" by (simp add: pin_replace_def readBlock_def Let_def)
    with f2 np show ?thesis by (rule fix_inv_LRU)
  next
    case RS_CLOCK
    with r have "CLOCK ?b2 ?np = Returns b'" by (simp add: pin_replace_def readBlock_def Let_def)
    with f2 np show ?thesis by (rule fix_inv_CLOCK)
  next
    case RS_LFU
    with r have "LFU ?b2 ?np = Returns b'" by (simp add: pin_replace_def readBlock_def Let_def)
    with f2 np show ?thesis by (rule fix_inv_LFU)
  next
    case RS_LRU_K
    with r have "LRU_K ?b2 ?np = Returns b'" by (simp add: pin_replace_def readBlock_def Let_def)
    with f2 np show ?thesis by (rule fix_inv_LRU_K)
  qed
qed

lemma fix_inv_pinPage:
  assumes inv: "pool_inv s" and fi: "fix_inv s" and r: "pinPage s pn = Some (Returns (rc, s'))"
  shows "fix_inv s'"
proof (cases "mgmtData s")
  case None
  with r fi show ?thesis by (simp add: pinPage_def)
next
  case (Some fs)
  with inv have b: "bufferSize s = length fs" and ne: "fs \<noteq> []" by (simp_all add: pool_inv_def)
  have nn: "0 \<le> fixCount (fs ! j)" if "j < length fs" for j
    using fi Some that by (simp add: fix_inv_frames)
  from Some b ne r show ?thesis
  proof (cases rule: pinPage_open_cases)
    case negative
    with fi show ?thesis by simp
  next
    case first
    let ?f = "(fs ! 0)\<lparr>data := Some (disk s pn), pageNum := pn,
                fixCount := fixCount (fs ! 0) + 1, hitNum := 0, refNum := 0\<rparr>"
    have "0 \<le> fixCount (fs ! 0)" using ne by (intro nn) simp
    then have f: "0 \<le> fixCount ?f" by simp
    have m': "mgmtData (pin_first s fs pn) = Some (fs[0 := ?f])"
      by (simp add: pin_first_def readBlock_def)
    show ?thesis unfolding first(4) by (rule fix_inv_update [OF fi Some m' f])
  next
    case (empty j)
    let ?f1 = "(fs ! j)\<lparr>data := Some (disk s pn)\<rparr>"
    let ?f2 = "if strategy s = RS_CLOCK then ?f1\<lparr>hitNum := 1\<rparr>
               else if strategy s = RS_LRU then ?f1\<lparr>hitNum := int (hit s + 1)\<rparr> else ?f1"
    let ?f = "?f2\<lparr>refNum := 0, pageNum := pn, fixCount := 1\<rparr>"
    have m': "mgmtData (pin_empty_frame s fs j pn) = Some (fs[j := ?f])"
      by (simp add: pin_empty_frame_def readBlock_def Let_def)
    have f: "0 \<le> fixCount ?f" by simp
    show ?thesis unfolding empty(7) by (rule fix_inv_update [OF fi Some m' f])
  next
    case (resident j)
    let ?f1 = "(fs ! j)\<lparr>fixCount := fixCount (fs ! j) + 1\<rparr>"
    let ?f = "case strategy s of
                RS_CLOCK \<Rightarrow> ?f1\<lparr>hitNum := 1\<rparr>
              | RS_LFU \<Rightarrow> ?f1\<lparr>refNum := refNum ?f1 + 1\<rparr>
              | RS_LRU \<Rightarrow> ?f1\<lparr>hitNum := int (hit s + 1)\<rparr>
              | RS_LRU_K \<Rightarrow> ?f1\<lparr>hitNum := int (hit s + 1)\<rparr>
              | RS_FIFO \<Rightarrow> ?f1"
    have m': "mgmtData (pin_resident s fs j) = Some (fs[j := ?f])"
      by (cases "strategy s") (simp_all add: pin_resident_def Let_def)
    have f: "0 \<le> fixCount ?f"
      using nn [OF resident(3)] by (cases "strategy s") simp_all
    show ?thesis unfolding resident(7) by (rule fix_inv_update [OF fi Some m' f])
  next
    case replace
    with fi show ?thesis by (auto intro: fix_inv_pin_replace)
  qed
qed

lemma fix_inv_unpinPage:
  assumes "fix_inv s" and "unpinPage s pn = (rc, s')"
  shows "fix_inv s'"
proof (cases "mgmtData s")
  case None
  with assms show ?thesis by (simp add: unpinPage_def)
next
  case (Some fs)
  show ?thesis
  proof (cases "find (\<lambda>j. pageNum (fs ! j) = pn) [0..<numPages s]")
    case None
    with Some assms show ?thesis by (simp add: unpinPage_def)
  next
    case j: (Some j)
    show ?thesis
    proof (cases "fixCount (fs ! j) > 0")
      case True
      with Some j assms(2)
      have "s' = s\<lparr>mgmtData := Some (fs[j := (fs ! j)\<lparr>fixCount := fixCount (fs ! j) - 1\<rparr>])\<rparr>"
        by (simp add: unpinPage_def)
      then have m': "mgmtData s' = Some (fs[j := (fs ! j)\<lparr>fixCount := fixCount (fs ! j) - 1\<rparr>])"
        by simp
      have f: "0 \<le> fixCount ((fs ! j)\<lparr>fixCount := fixCount (fs ! j) - 1\<rparr>)" using True by simp
      show ?thesis by (rule fix_inv_update [OF assms(1) Some m' f])
    next
      case False
      with Some j assms show ?thesis by (simp add: unpinPage_def)
    qed
  qed
qed

lemma fix_inv_markDirty:
  assumes "pool_inv s" and "fix_inv s" and "markDirty s pn = Returns (rc, s')"
  shows "fix_inv s'"
proof (cases "mgmtData s")
  case None
  with assms show ?thesis by (simp add: markDirty_def split: if_splits)
next
  case (Some fs)
  show ?thesis
  proof (cases "find (\<lambda>i. pageNum (fs ! i) = pn) [0..<bufferSize s]")
    case None
    with Some assms show ?thesis by (simp add: markDirty_def)
  next
    case j: (Some j)
    then have "j < bufferSize s" by (simp add: find_upt_Some)
    then have jl: "j < length fs" using assms(1) Some by (simp add: pool_inv_def)
    then have nn: "0 \<le> fixCount (fs ! j)" using assms(2) Some by (simp add: fix_inv_frames)
    from Some j assms(3)
    have "s' = s\<lparr>mgmtData := Some (fs[j := (fs ! j)\<lparr>dirtyBit := 1\<rparr>])\<rparr>"
      by (simp add: markDirty_def)
    then have m': "mgmtData s' = Some (fs[j := (fs ! j)\<lparr>dirtyBit := 1\<rparr>])" by simp
    have f: "0 \<le> fixCount ((fs ! j)\<lparr>dirtyBit := 1\<rparr>)" using nn by simp
    show ?thesis by (rule fix_inv_update [OF assms(2) Some m' f])
  qed
qed

lemma fix_inv_forcePage:
  assumes "pool_inv s" and "fix_inv s" and "forcePage s pn = Returns (rc, s')"
  shows "fix_inv s'"
proof (cases "mgmtData s")
  case None
  with assms show ?thesis by (simp add: forcePage_def split: if_splits)
next
  case (Some fs)
  show ?thesis
  proof (cases "find (\<lambda>i. \<not> (pageNum (fs ! i) \<noteq> pn)) [0..<bufferSize s]")
    case None
    with Some assms show ?thesis by (simp add: forcePage_def)
  next
    case j: (Some j)
    then have "j < bufferSize s" by (simp add: find_upt_Some)
    then have jl: "j < length fs" using assms(1) Some by (simp add: pool_inv_def)
    then have nn: "0 \<le> fixCount (fs ! j)" using assms(2) Some by (simp add: fix_inv_frames)
    from Some j assms(3)
    have m': "mgmtData s' = Some (fs[j := (fs ! j)\<lparr>dirtyBit := 0\<rparr>])"
      by (auto simp: forcePage_def Let_def)
    have f: "0 \<le> fixCount ((fs ! j)\<lparr>dirtyBit := 0\<rparr>)" using nn by simp
    show ?thesis by (rule fix_inv_update [OF assms(2) Some m' f])
  qed
qed

lemma fix_inv_forceFlushPool:
  assumes "pool_inv s" and "fix_inv s" and "forceFlushPool s = (rc, s')"
  shows "fix_inv s'"
proof (cases "mgmtData s")
  case None
  with assms show ?thesis by (simp add: forceFlushPool_def)
next
  case (Some fs)
  then have n: "numPages s = length fs" using assms(1) by (simp add: pool_inv_def)
  have s': "s' = snd (forceFlushPool s)" using assms(3) by simp
  show ?thesis
    unfolding s' using forceFlushPool_effect(2) [OF Some n] assms(2) Some
    by (auto simp: fix_inv_frames)
qed

lemma fix_inv_shutdownBufferPool:
  assumes "fix_inv s" and "shutdownBufferPool s = (rc, s')"
  shows "fix_inv s'"
proof (cases "mgmtData s")
  case None
  with assms show ?thesis by (simp add: shutdownBufferPool_def)
next
  case (Some fs)
  show ?thesis
  proof (cases "find (\<lambda>i. fixCount (fs ! i) \<noteq> 0) [0..<bufferSize s]")
    case None
    with Some assms(2) have "mgmtData s' = None" by (auto simp: shutdownBufferPool_def)
    then show ?thesis by (rule fix_inv_closed)
  next
    case (Some i)
    with \<open>mgmtData s = Some fs\<close> assms show ?thesis by (simp add: shutdownBufferPool_def)
  qed
qed

lemma reachable_fix_inv: "reachable s \<Longrightarrow> fix_inv s"
proof (induction rule: reachable.induct)
  case (reach_init n g pageFN strat)
  show ?case by (rule fix_inv_init)
next
  case (reach_pin s pn rc s')
  then show ?case by (auto intro: fix_inv_pinPage reachable_pool_inv)
next
  case (reach_unpin s pn rc s')
  then show ?case by (auto intro: fix_inv_unpinPage)
next
  case (reach_markDirty s pn rc s')
  then show ?case by (auto intro: fix_inv_markDirty reachable_pool_inv)
next
  case (reach_forcePage s pn rc s')
  then show ?case by (auto intro: fix_inv_forcePage reachable_pool_inv)
next
  case (reach_flush s rc s')
  then show ?case by (auto intro: fix_inv_forceFlushPool reachable_pool_inv)
next
  case (reach_shutdown s rc s')
  then show ?case by (auto intro: fix_inv_shutdownBufferPool)
qed

section \<open>Victims and pinned frames\<close>

text \<open>
  Claim C1: every victim selected by any of the five strategies has \<open>fixCount = 0\<close> when
  it is selected. \<^verbatim>\<open>LRU\<close> does not keep to it. In a pool of two frames, pin pages 1 and
  2 and unpin page 2: frame 0 holds page 1 with \<open>fixCount = 1\<close>, frame 1 holds page 2 with
  \<open>fixCount = 0\<close>. The victim computed by \<^verbatim>\<open>LRU\<close> for the next miss is frame 0, the
  pinned one, and pinning page 3 overwrites it.
\<close>

theorem LRU_victim_is_pinned_frame:
  "case run (initBufferPool startup (Some ''pages.bin'') 2 RS_LRU) [Pin 1, Pin 2, Unpin 2] of
     Some (Returns (rcs, s)) \<Rightarrow>
       rcs = [RC_OK, RC_OK, RC_OK] \<and>
       map pageNum (frames s) = [1, 2] \<and>
       map fixCount (frames s) = [1, 0] \<and>
       LRU_victim (frames s) (bufferSize s) = 0 \<and>
       fixCount (frames s ! LRU_victim (frames s) (bufferSize s)) = 1 \<and>
       (case pinPage s 3 of
          Some (Returns (rc, s')) \<Rightarrow>
            rc = RC_OK \<and> map pageNum (frames s') = [3, 2] \<and> map fixCount (frames s') = [1, 0]
        | _ \<Rightarrow> False)
   | _ \<Rightarrow> False"
  by code_simp

section \<open>Dirty victims\<close>

text \<open>
  Claim C2: a page marked dirty is written to the page file before its frame is given to
  another page or the pool is shut down. \<^verbatim>\<open>LRU\<close> copies the incoming page into the
  victim frame first and tests the dirty bit afterwards, when it is the incoming page's
  (zero): in a pool of one frame, page 1 pinned, marked dirty and unpinned is replaced
  by page 2 without any block having been written.
\<close>

theorem LRU_replaces_dirty_page_unwritten:
  "case run (initBufferPool startup (Some ''pages.bin'') 1 RS_LRU)
          [Pin 1, MarkDirty 1, Unpin 1] of
     Some (Returns (rcs, s)) \<Rightarrow>
       rcs = [RC_OK, RC_OK, RC_OK] \<and>
       map pageNum (frames s) = [1] \<and>
       map dirtyBit (frames s) = [1] \<and>
       map fixCount (frames s) = [0] \<and>
       (case pinPage s 2 of
          Some (Returns (rc, s')) \<Rightarrow>
            rc = RC_OK \<and> map pageNum (frames s') = [2] \<and> map dirtyBit (frames s') = [0] \<and>
            io s' = [ReadBlock 1, ReadBlock 2] \<and> writes s' = [] \<and> getNumWriteIO s' = 0
        | _ \<Rightarrow> False)
   | _ \<Rightarrow> False"
  by code_simp

section \<open>Flushing the pool\<close>

text \<open>
  Claim C3: \<^verbatim>\<open>forceFlushPool\<close> writes every frame that is dirty and not pinned, that
  frame's own buffer under that frame's page number. The write loop takes the buffer of
  frame \<open>i\<close> for the \<open>i\<close>-th page number collected: with page 1 clean in frame 0 and
  page 2 dirty and unpinned in frame 1, page 2 is written with the buffer of frame 0,
  and the page file then holds page 1's bytes under page 2.
\<close>

theorem forceFlushPool_writes_other_frames_buffer:
  "case run (initBufferPool startup (Some ''pages.bin'') 2 RS_FIFO)
          [Pin 1, Pin 2, MarkDirty 2, Unpin 2] of
     Some (Returns (rcs, s)) \<Rightarrow>
       rcs = [RC_OK, RC_OK, RC_OK, RC_OK] \<and>
       map pageNum (frames s) = [1, 2] \<and>
       map dirtyBit (frames s) = [0, 1] \<and>
       map fixCount (frames s) = [1, 0] \<and>
       map data (frames s) = [Some ''x'', Some ''xx''] \<and>
       (case forceFlushPool s of
          (rc, s') \<Rightarrow>
            rc = RC_OK \<and> writes s' = [WriteBlock 2 (Some ''x'')] \<and>
            map dirtyBit (frames s') = [0, 0] \<and> getNumWriteIO s' = 1 \<and>
            disk s' 2 = ''x'' \<and> data (frames s' ! 1) = Some ''xx'')
   | _ \<Rightarrow> False"
  by code_simp

section \<open>LFU and the dirty bit\<close>

text \<open>
  Claim C5: \<^verbatim>\<open>LFU\<close> writes its victim to the page file exactly when the victim is
  dirty. The code tests \<^verbatim>\<open>!(pageFrame[leastFreqIndex].dirtyBit)\<close>: in a pool of one
  frame, a dirty unpinned page 1 is replaced by page 2 without a write, and a clean
  unpinned page 1 is written before page 2 replaces it.
\<close>

theorem LFU_writes_clean_victim_only:
  "(case run (initBufferPool startup (Some ''pages.bin'') 1 RS_LFU)
           [Pin 1, MarkDirty 1, Unpin 1] of
      Some (Returns (rcs, s)) \<Rightarrow>
        rcs = [RC_OK, RC_OK, RC_OK] \<and>
        map pageNum (frames s) = [1] \<and> map dirtyBit (frames s) = [1] \<and>
        LFU_victim (frames s) (bufferSize s) (lfuPointer s) = 0 \<and>
        (case pinPage s 2 of
           Some (Returns (rc, s')) \<Rightarrow>
             rc = RC_OK \<and> map pageNum (frames s') = [2] \<and> writes s' = []
         | _ \<Rightarrow> False)
    | _ \<Rightarrow> False) \<and>
   (case run (initBufferPool startup (Some ''pages.bin'') 1 RS_LFU) [Pin 1, Unpin 1] of
      Some (Returns (rcs, s)) \<Rightarrow>
        rcs = [RC_OK, RC_OK] \<and>
        map pageNum (frames s) = [1] \<and> map dirtyBit (frames s) = [0] \<and>
        LFU_victim (frames s) (bufferSize s) (lfuPointer s) = 0 \<and>
        (case pinPage s 2 of
           Some (Returns (rc, s')) \<Rightarrow>
             rc = RC_OK \<and> map pageNum (frames s') = [2] \<and>
             writes s' = [WriteBlock 1 (Some ''x'')]
         | _ \<Rightarrow> False)
    | _ \<Rightarrow> False)"
  by code_simp
section \<open>Marking an empty frame dirty\<close>

text \<open>
  Claim C10: in a pool with at least one empty frame (page number \<open>- 1\<close>),
  \<^verbatim>\<open>markDirty\<close> called with page number \<open>- 1\<close> returns \<open>RC_OK\<close> and sets the dirty bit
  of the first empty frame, which is then empty and dirty at once.
\<close>

theorem markDirty_marks_first_empty_frame:
  assumes "mgmtData s = Some fs" and "bufferSize s = length fs"
      and "\<exists>f \<in> set fs. isPageFrameEmpty f"
  shows "\<exists>k s'. k < length fs \<and> isPageFrameEmpty (fs ! k) \<and>
           (\<forall>i<k. \<not> isPageFrameEmpty (fs ! i)) \<and>
           markDirty s (- 1) = Returns (RC_OK, s') \<and>
           frames s' = fs[k := (fs ! k)\<lparr>dirtyBit := 1\<rparr>] \<and>
           isPageFrameEmpty (frames s' ! k) \<and> dirtyBit (frames s' ! k) = 1"
proof -
  from assms(3) have "\<exists>i<length fs. pageNum (fs ! i) = - 1"
    by (auto simp: in_set_conv_nth isPageFrameEmpty_def)
  then obtain k where k: "k < length fs" "pageNum (fs ! k) = - 1" "\<forall>j<k. pageNum (fs ! j) \<noteq> - 1"
    using first_index_ex [of "length fs" "\<lambda>i. pageNum (fs ! i) = - 1"] by blast
  then have "find (\<lambda>i. pageNum (fs ! i) = - 1) [0..<bufferSize s] = Some k"
    using assms(2) by (simp add: find_upt_Some)
  then have "markDirty s (- 1) =
      Returns (RC_OK, s\<lparr>mgmtData := Some (fs[k := (fs ! k)\<lparr>dirtyBit := 1\<rparr>])\<rparr>)"
    using assms(1) by (simp add: markDirty_def)
  with k show ?thesis
    by (intro exI [of _ k] exI [of _ "s\<lparr>mgmtData := Some (fs[k := (fs ! k)\<lparr>dirtyBit := 1\<rparr>])\<rparr>"])
       (simp add: frames_def isPageFrameEmpty_def)
qed

theorem markDirty_marks_first_empty_frame_witness:
  "\<exists>k s'. k < length (frames (initBufferPool startup (Some ''pages.bin'') 2 RS_FIFO)) \<and>
      markDirty (initBufferPool startup (Some ''pages.bin'') 2 RS_FIFO) (- 1) = Returns (RC_OK, s') \<and>
      isPageFrameEmpty (frames s' ! k) \<and> dirtyBit (frames s' ! k) = 1"
proof -
  let ?s = "initBufferPool startup (Some ''pages.bin'') 2 RS_FIFO"
  let ?fs = "replicate 2 \<lparr>data = None, pageNum = - 1, dirtyBit = 0, fixCount = 0, hitNum = 0, refNum = 0\<rparr>"
  have a: "mgmtData ?s = Some ?fs" by (simp add: initBufferPool_def)
  have b: "bufferSize ?s = length ?fs" by (simp add: initBufferPool_def)
  have c: "\<exists>f \<in> set ?fs. isPageFrameEmpty f" by (simp add: isPageFrameEmpty_def)
  have d: "frames ?s = ?fs" by (simp add: frames_def initBufferPool_def)
  from markDirty_marks_first_empty_frame [OF a b c] show ?thesis unfolding d by blast
qed

section \<open>Unpinning\<close>

text \<open>
  Against claim C7 as it is written: \<^verbatim>\<open>unpinPage\<close> compares the \<open>pageNum\<close> field
  with the requested number and does not set the empty frames apart. In a pool that has
  just been initialised every frame is empty, so no frame holds any page; unpinning
  page number \<open>- 1\<close> there returns \<open>RC_PAGE_NOT_PINNED\<close> and not
  \<open>RC_PAGE_NOT_IN_FRAMELIST\<close>.
\<close>

theorem unpinPage_of_sentinel_counterexample:
  "list_all isPageFrameEmpty (frames (initBufferPool startup (Some ''pages.bin'') 2 RS_FIFO)) \<and>
   length (frames (initBufferPool startup (Some ''pages.bin'') 2 RS_FIFO)) = 2 \<and>
   fst (unpinPage (initBufferPool startup (Some ''pages.bin'') 2 RS_FIFO) (- 1)) =
     RC_PAGE_NOT_PINNED \<and>
   fst (unpinPage (initBufferPool startup (Some ''pages.bin'') 2 RS_FIFO) (- 1)) \<noteq>
     RC_PAGE_NOT_IN_FRAMELIST"
  by code_simp

text \<open>
  Claim C7, as the code has it: \<^verbatim>\<open>unpinPage\<close> returns \<open>RC_POOL_NOT_OPEN\<close> on a closed
  pool, \<open>RC_PAGE_NOT_IN_FRAMELIST\<close> when no frame has the requested number in its
  \<open>pageNum\<close> field (an empty frame has \<open>- 1\<close> there), \<open>RC_PAGE_NOT_PINNED\<close> when the
  first frame that has it has \<open>fixCount = 0\<close>, and otherwise takes one off that frame's
  \<open>fixCount\<close>, changes nothing else and returns \<open>RC_OK\<close>.
\<close>

theorem unpinPage_cases:
  "(mgmtData s = None \<longrightarrow> unpinPage s n = (RC_POOL_NOT_OPEN, s)) \<and>
   (\<forall>fs. mgmtData s = Some fs \<and> numPages s = length fs \<longrightarrow>
      ((\<forall>f \<in> set fs. pageNum f \<noteq> n) \<longrightarrow> unpinPage s n = (RC_PAGE_NOT_IN_FRAMELIST, s)) \<and>
      (\<forall>k. k < length fs \<and> pageNum (fs ! k) = n \<and> (\<forall>i<k. pageNum (fs ! i) \<noteq> n) \<longrightarrow>
         (fixCount (fs ! k) = 0 \<longrightarrow> unpinPage s n = (RC_PAGE_NOT_PINNED, s)) \<and>
         (fixCount (fs ! k) > 0 \<longrightarrow>
            unpinPage s n =
              (RC_OK, s\<lparr>mgmtData := Some (fs[k := (fs ! k)\<lparr>fixCount := fixCount (fs ! k) - 1\<rparr>])\<rparr>))))"
proof (intro conjI allI impI)
  assume "mgmtData s = None"
  then show "unpinPage s n = (RC_POOL_NOT_OPEN, s)" by (simp add: unpinPage_def)
next
  fix fs assume a: "mgmtData s = Some fs \<and> numPages s = length fs" and b: "\<forall>f \<in> set fs. pageNum f \<noteq> n"
  from a b have "find (\<lambda>j. pageNum (fs ! j) = n) [0..<numPages s] = None"
    by (simp add: find_upt_None)
  with a show "unpinPage s n = (RC_PAGE_NOT_IN_FRAMELIST, s)" by (simp add: unpinPage_def)
next
  fix fs k
  assume a: "mgmtData s = Some fs \<and> numPages s = length fs"
    and k: "k < length fs \<and> pageNum (fs ! k) = n \<and> (\<forall>i<k. pageNum (fs ! i) \<noteq> n)"
    and z: "fixCount (fs ! k) = 0"
  from a k have "find (\<lambda>j. pageNum (fs ! j) = n) [0..<numPages s] = Some k"
    by (simp add: find_upt_Some)
  with a z show "unpinPage s n = (RC_PAGE_NOT_PINNED, s)" by (simp add: unpinPage_def)
next
  fix fs k
  assume a: "mgmtData s = Some fs \<and> numPages s = length fs"
    and k: "k < length fs \<and> pageNum (fs ! k) = n \<and> (\<forall>i<k. pageNum (fs ! i) \<noteq> n)"
    and z: "fixCount (fs ! k) > 0"
  from a k have "find (\<lambda>j. pageNum (fs ! j) = n) [0..<numPages s] = Some k"
    by (simp add: find_upt_Some)
  with a z show "unpinPage s n =
     (RC_OK, s\<lparr>mgmtData := Some (fs[k := (fs ! k)\<lparr>fixCount := fixCount (fs ! k) - 1\<rparr>])\<rparr>)"
    by (simp add: unpinPage_def)
qed


theorem unpinPage_cases_witness:
  "unpinPage startup 4 = (RC_POOL_NOT_OPEN, startup) \<and>
   fst (unpinPage
     (startup\<lparr>numPages := 1, mgmtData := Some
        [\<lparr>data = None, pageNum = 4, dirtyBit = 0, fixCount = 2, hitNum = 0, refNum = 0\<rparr>]\<rparr>) 7) =
     RC_PAGE_NOT_IN_FRAMELIST \<and>
   fst (unpinPage
     (startup\<lparr>numPages := 1, mgmtData := Some
        [\<lparr>data = None, pageNum = 4, dirtyBit = 0, fixCount = 0, hitNum = 0, refNum = 0\<rparr>]\<rparr>) 4) =
     RC_PAGE_NOT_PINNED \<and>
   unpinPage
     (startup\<lparr>numPages := 1, mgmtData := Some
        [\<lparr>data = None, pageNum = 4, dirtyBit = 0, fixCount = 2, hitNum = 0, refNum = 0\<rparr>]\<rparr>) 4 =
     (RC_OK, startup\<lparr>numPages := 1, mgmtData := Some
        [\<lparr>data = None, pageNum = 4, dirtyBit = 0, fixCount = 1, hitNum = 0, refNum = 0\<rparr>]\<rparr>)"
proof -
  let ?f = "\<lparr>data = None, pageNum = 4, dirtyBit = 0, fixCount = 2, hitNum = 0, refNum = 0\<rparr>"
  let ?g = "\<lparr>data = None, pageNum = 4, dirtyBit = 0, fixCount = 0, hitNum = 0, refNum = 0\<rparr>"
  let ?t = "startup\<lparr>numPages := 1, mgmtData := Some [?f]\<rparr>"
  let ?u = "startup\<lparr>numPages := 1, mgmtData := Some [?g]\<rparr>"
  have 1: "unpinPage startup 4 = (RC_POOL_NOT_OPEN, startup)"
    using unpinPage_cases [of startup 4] by (simp add: startup_def)
  have t: "mgmtData ?t = Some [?f] \<and> numPages ?t = length [?f]" by simp
  have u: "mgmtData ?u = Some [?g] \<and> numPages ?u = length [?g]" by simp
  have 2: "unpinPage ?t 7 = (RC_PAGE_NOT_IN_FRAMELIST, ?t)"
    using unpinPage_cases [of ?t 7, THEN conjunct2, rule_format, OF t, THEN conjunct1] by simp
  have 3: "unpinPage ?u 4 = (RC_PAGE_NOT_PINNED, ?u)"
    using unpinPage_cases [of ?u 4, THEN conjunct2, rule_format, OF u, THEN conjunct2,
        rule_format, of 0] by simp
  have 4: "unpinPage ?t 4 =
      (RC_OK, ?t\<lparr>mgmtData := Some ([?f][0 := ([?f] ! 0)\<lparr>fixCount := fixCount ([?f] ! 0) - 1\<rparr>])\<rparr>)"
    using unpinPage_cases [of ?t 4, THEN conjunct2, rule_format, OF t, THEN conjunct2,
        rule_format, of 0] by simp
  from 1 2 3 4 show ?thesis by simp
qed

section \<open>No page in two frames\<close>

text \<open>
  Claim C4: in every reachable state of the pool, two different frames that are both
  occupied hold different page numbers.
\<close>

theorem frames_hold_distinct_pages:
  assumes "reachable s" and "i < length (frames s)" and "j < length (frames s)" and "i \<noteq> j"
    and "\<not> isPageFrameEmpty (frames s ! i)" and "\<not> isPageFrameEmpty (frames s ! j)"
  shows "pageNum (frames s ! i) \<noteq> pageNum (frames s ! j)"
proof (cases "mgmtData s")
  case None
  with assms(2) show ?thesis by (simp add: frames_def)
next
  case (Some fs)
  then have fr: "frames s = fs" by (simp add: frames_def)
  from assms(1) have "pool_inv s" by (rule reachable_pool_inv)
  with Some have "pageNums_ok (map pageNum fs)" by (simp add: pool_inv_def)
  then have "\<forall>i j. i < length fs \<and> j < length fs \<and> i \<noteq> j \<and> pageNum (fs ! i) \<noteq> - 1
      \<longrightarrow> pageNum (fs ! i) \<noteq> pageNum (fs ! j)"
    unfolding pageNums_ok_def by (simp add: nth_map)
  with assms(2-5) show ?thesis unfolding fr isPageFrameEmpty_def by blast
qed

theorem frames_hold_distinct_pages_witness:
  "case run (initBufferPool startup (Some ''pages.bin'') 2 RS_LRU) [Pin 7, Pin 9, Unpin 7, Pin 8] of
     Some (Returns (rcs, s)) \<Rightarrow>
       map pageNum (frames s) = [8, 9] \<and> pageNum (frames s ! 0) \<noteq> pageNum (frames s ! 1)
   | _ \<Rightarrow> False"
proof -
  let ?r = "run (initBufferPool startup (Some ''pages.bin'') 2 RS_LRU) [Pin 7, Pin 9, Unpin 7, Pin 8]"
  have "case ?r of Some (Returns (rcs, s)) \<Rightarrow> map pageNum (frames s) = [8, 9] | _ \<Rightarrow> False"
    by code_simp
  then obtain rcs s where r: "?r = Some (Returns (rcs, s))" and p: "map pageNum (frames s) = [8, 9]"
    by (auto split: option.splits outcome.splits)
  have "reachable (initBufferPool startup (Some ''pages.bin'') 2 RS_LRU)"
    by (rule reach_init) simp
  then have reach: "reachable s" using r by (rule run_reachable)
  have len: "length (frames s) = 2" using p by (metis length_map length_Cons list.size(3) numeral_2_eq_2)
  have p0: "pageNum (frames s ! 0) = 8" and p1: "pageNum (frames s ! 1) = 9"
    using p len by (metis nth_map nth_Cons_0 zero_less_numeral, metis nth_map nth_Cons_0 nth_Cons_Suc One_nat_def one_less_numeral_iff semiring_norm(76))
  have e0: "\<not> isPageFrameEmpty (frames s ! 0)" and e1: "\<not> isPageFrameEmpty (frames s ! 1)"
    using p0 p1 by (simp_all add: isPageFrameEmpty_def)
  have "pageNum (frames s ! 0) \<noteq> pageNum (frames s ! 1)"
    by (rule frames_hold_distinct_pages [OF reach _ _ _ e0 e1]) (simp_all add: len)
  with r p show ?thesis by simp
qed

section \<open>Shutting the pool down\<close>

text \<open>
  Against claim C8 as it is written: shutting down a pool that is already closed returns \<open>RC_BUFFER_POOL_SHUTDOWN_ERROR\<close>,
  which is not the \<open>RC_POOL_NOT_OPEN\<close> that \<^verbatim>\<open>unpinPage\<close> returns on a closed pool.
\<close>

theorem shutdown_of_closed_pool_counterexample:
  "case run (initBufferPool startup (Some ''pages.bin'') 1 RS_FIFO) [Shutdown] of
     Some (Returns (rcs, s)) \<Rightarrow>
       rcs = [RC_OK] \<and> mgmtData s = None \<and>
       fst (shutdownBufferPool s) = RC_BUFFER_POOL_SHUTDOWN_ERROR \<and>
       fst (shutdownBufferPool s) \<noteq> RC_POOL_NOT_OPEN
   | _ \<Rightarrow> False"
  by code_simp

text \<open>
  Claim C8, as the code has it: on an open pool whose pin counts are not negative,
  \<^verbatim>\<open>shutdownBufferPool\<close> returns \<open>RC_PINNED_PAGES_IN_BUFFER\<close> exactly when some frame
  has \<open>fixCount > 0\<close>, and then changes nothing; otherwise it returns \<open>RC_OK\<close>, issues one
  block write per dirty frame under that frame's page number, counts each write, and
  closes the pool (the frame array is released, \<open>mgmtData\<close> is NULL). On a closed pool it
  returns \<open>RC_BUFFER_POOL_SHUTDOWN_ERROR\<close> and changes nothing.
\<close>

theorem shutdownBufferPool_cases:
  "(mgmtData s = None \<longrightarrow> shutdownBufferPool s = (RC_BUFFER_POOL_SHUTDOWN_ERROR, s)) \<and>
   (\<forall>fs. mgmtData s = Some fs \<and> bufferSize s = length fs \<and> numPages s = length fs \<and>
         (\<forall>f \<in> set fs. 0 \<le> fixCount f) \<longrightarrow>
      (fst (shutdownBufferPool s) = RC_PINNED_PAGES_IN_BUFFER \<longleftrightarrow> (\<exists>f \<in> set fs. 0 < fixCount f)) \<and>
      ((\<exists>f \<in> set fs. 0 < fixCount f) \<longrightarrow> shutdownBufferPool s = (RC_PINNED_PAGES_IN_BUFFER, s)) \<and>
      ((\<forall>f \<in> set fs. fixCount f = 0) \<longrightarrow>
         fst (shutdownBufferPool s) = RC_OK \<and>
         mgmtData (snd (shutdownBufferPool s)) = None \<and>
         writeCount (snd (shutdownBufferPool s)) =
           writeCount s + length (filter (\<lambda>f. dirtyBit f = 1) fs) \<and>
         written_pages (io (snd (shutdownBufferPool s))) =
           written_pages (io s) @ map pageNum (filter (\<lambda>f. dirtyBit f = 1) fs)))"
proof (intro conjI allI impI)
  assume "mgmtData s = None"
  then show "shutdownBufferPool s = (RC_BUFFER_POOL_SHUTDOWN_ERROR, s)"
    by (simp add: shutdownBufferPool_def)
next
  fix fs
  assume a: "mgmtData s = Some fs \<and> bufferSize s = length fs \<and> numPages s = length fs \<and>
         (\<forall>f \<in> set fs. 0 \<le> fixCount f)"
  have pos: "(\<exists>f \<in> set fs. 0 < fixCount f) \<longleftrightarrow> \<not> (\<forall>f \<in> set fs. fixCount f = 0)"
    using a by force
  have none: "find (\<lambda>i. fixCount (fs ! i) \<noteq> 0) [0..<bufferSize s] = None
      \<longleftrightarrow> (\<forall>f \<in> set fs. fixCount f = 0)"
    using a find_fix_None [of fs "bufferSize s"] by simp
  show "fst (shutdownBufferPool s) = RC_PINNED_PAGES_IN_BUFFER \<longleftrightarrow> (\<exists>f \<in> set fs. 0 < fixCount f)"
    unfolding pos using a none
    by (cases "find (\<lambda>i. fixCount (fs ! i) \<noteq> 0) [0..<bufferSize s]")
       (simp_all add: shutdownBufferPool_def)
  {
    assume "\<exists>f \<in> set fs. 0 < fixCount f"
    then have "find (\<lambda>i. fixCount (fs ! i) \<noteq> 0) [0..<bufferSize s] \<noteq> None"
      using none pos by simp
    then show "shutdownBufferPool s = (RC_PINNED_PAGES_IN_BUFFER, s)"
      using a by (auto simp: shutdownBufferPool_def)
  }
  assume z: "\<forall>f \<in> set fs. fixCount f = 0"
  then have f: "find (\<lambda>i. fixCount (fs ! i) \<noteq> 0) [0..<bufferSize s] = None"
    using none by simp
  have fl: "filter flushable fs = filter (\<lambda>f. dirtyBit f = 1) fs"
    using z by (intro filter_cong) (auto simp: flushable_def)
  have m: "mgmtData s = Some fs" and n: "numPages s = length fs" using a by simp_all
  show "fst (shutdownBufferPool s) = RC_OK"
    using m f by (simp add: shutdownBufferPool_def)
  show "mgmtData (snd (shutdownBufferPool s)) = None"
    using m f by (simp add: shutdownBufferPool_def)
  show "writeCount (snd (shutdownBufferPool s)) =
           writeCount s + length (filter (\<lambda>f. dirtyBit f = 1) fs)"
    using m f forceFlushPool_effect(3) [OF m n] by (simp add: shutdownBufferPool_def fl)
  show "written_pages (io (snd (shutdownBufferPool s))) =
           written_pages (io s) @ map pageNum (filter (\<lambda>f. dirtyBit f = 1) fs)"
    using m f forceFlushPool_effect(4) [OF m n] by (simp add: shutdownBufferPool_def fl)
qed

theorem shutdownBufferPool_cases_witness:
  "shutdownBufferPool startup = (RC_BUFFER_POOL_SHUTDOWN_ERROR, startup) \<and>
   shutdownBufferPool
     (startup\<lparr>bufferSize := 1, numPages := 1, mgmtData := Some
        [\<lparr>data = None, pageNum = 4, dirtyBit = 1, fixCount = 2, hitNum = 0, refNum = 0\<rparr>]\<rparr>) =
     (RC_PINNED_PAGES_IN_BUFFER,
      startup\<lparr>bufferSize := 1, numPages := 1, mgmtData := Some
        [\<lparr>data = None, pageNum = 4, dirtyBit = 1, fixCount = 2, hitNum = 0, refNum = 0\<rparr>]\<rparr>) \<and>
   fst (shutdownBufferPool
     (startup\<lparr>bufferSize := 1, numPages := 1, mgmtData := Some
        [\<lparr>data = None, pageNum = 4, dirtyBit = 1, fixCount = 0, hitNum = 0, refNum = 0\<rparr>]\<rparr>)) = RC_OK \<and>
   written_pages (io (snd (shutdownBufferPool
     (startup\<lparr>bufferSize := 1, numPages := 1, mgmtData := Some
        [\<lparr>data = None, pageNum = 4, dirtyBit = 1, fixCount = 0, hitNum = 0, refNum = 0\<rparr>]\<rparr>)))) = [4]"
proof -
  let ?f = "\<lparr>data = None, pageNum = 4, dirtyBit = 1, fixCount = 2, hitNum = 0, refNum = 0\<rparr>"
  let ?g = "\<lparr>data = None, pageNum = 4, dirtyBit = 1, fixCount = 0, hitNum = 0, refNum = 0\<rparr>"
  let ?t = "startup\<lparr>bufferSize := 1, numPages := 1, mgmtData := Some [?f]\<rparr>"
  let ?u = "startup\<lparr>bufferSize := 1, numPages := 1, mgmtData := Some [?g]\<rparr>"
  have 1: "shutdownBufferPool startup = (RC_BUFFER_POOL_SHUTDOWN_ERROR, startup)"
    using shutdownBufferPool_cases [of startup] by (simp add: startup_def)
  have t: "mgmtData ?t = Some [?f] \<and> bufferSize ?t = length [?f] \<and> numPages ?t = length [?f] \<and>
         (\<forall>f \<in> set [?f]. 0 \<le> fixCount f)" by simp
  have 2: "shutdownBufferPool ?t = (RC_PINNED_PAGES_IN_BUFFER, ?t)"
    using shutdownBufferPool_cases [of ?t, THEN conjunct2, rule_format, OF t] by simp
  have u: "mgmtData ?u = Some [?g] \<and> bufferSize ?u = length [?g] \<and> numPages ?u = length [?g] \<and>
         (\<forall>f \<in> set [?g]. 0 \<le> fixCount f)" by simp
  have 3: "fst (shutdownBufferPool ?u) = RC_OK \<and> written_pages (io (snd (shutdownBufferPool ?u))) = [4]"
    using shutdownBufferPool_cases [of ?u, THEN conjunct2, rule_format, OF u]
    by (simp add: startup_def written_pages_def)
  from 1 2 3 show ?thesis by simp
qed

section \<open>Pinning into a pool whose frames are all pinned\<close>

text \<open>
  Against claim C6 as it is written: in a pool of one frame under LRU, with page 1
  pinned, pinning page 2 returns \<open>RC_OK\<close> and the frame then holds page 2. No return
  code of the buffer manager stands for an exhausted pool.
\<close>

theorem pin_into_pinned_frame_returns_ok_counterexample:
  "case run (initBufferPool startup (Some ''pages.bin'') 1 RS_LRU) [Pin 1] of
     Some (Returns (rcs, s)) \<Rightarrow>
       rcs = [RC_OK] \<and> map pageNum (frames s) = [1] \<and> map fixCount (frames s) = [1] \<and>
       (case pinPage s 2 of
          Some (Returns (rc, s')) \<Rightarrow>
            rc = RC_OK \<and> map pageNum (frames s') = [2] \<and> map data (frames s) = [Some ''x''] \<and>
            map data (frames s') = [Some ''xx'']
        | _ \<Rightarrow> False)
   | _ \<Rightarrow> False"
  by code_simp

text \<open>
  Claim C6, as the code has it: in a pool of one frame, after page \<open>p\<close> has been pinned
  and is still pinned, pinning another page \<open>q\<close> never fails with an error. Under FIFO
  the call does not return: the scan for a frame with \<open>fixCount = 0\<close> goes round the
  pinned frame for ever. Under LRU, CLOCK, LFU and LRU-K it returns \<open>RC_OK\<close>.
\<close>

theorem pin_second_page_into_single_pinned_frame:
  assumes "pinPage (initBufferPool g pageFN 1 strat) p = Some (Returns (rc, s1))"
    and "0 \<le> p" and "0 \<le> q" and "q \<noteq> p"
  shows "map pageNum (frames s1) = [p] \<and> map fixCount (frames s1) = [1] \<and>
         (strat = RS_FIFO \<longrightarrow> pinPage s1 q = None) \<and>
         (strat \<noteq> RS_FIFO \<longrightarrow> (\<exists>s2. pinPage s1 q = Some (Returns (RC_OK, s2))))"
proof -
  let ?f = "\<lparr>data = Some (disk g p), pageNum = p, dirtyBit = 0, fixCount = 1, hitNum = 0, refNum = 0\<rparr>"
  have s1: "s1 = pin_first (initBufferPool g pageFN 1 strat)
                  [\<lparr>data = None, pageNum = - 1, dirtyBit = 0, fixCount = 0, hitNum = 0, refNum = 0\<rparr>] p"
    using assms(1,2) by (simp add: pinPage_def initBufferPool_def isPageFrameEmpty_def)
  have m: "mgmtData s1 = Some [?f]"
    by (simp add: s1 pin_first_def readBlock_def initBufferPool_def)
  have g: "bufferSize s1 = 1" "rearIndex s1 = 0" "clockPointer s1 = 0" "lfuPointer s1 = 0"
    "strategy s1 = strat"
    by (simp_all add: s1 pin_first_def readBlock_def initBufferPool_def)
  have fr: "map pageNum (frames s1) = [p] \<and> map fixCount (frames s1) = [1]"
    using m by (simp add: frames_def)
  have pin: "pinPage s1 q =
      (case pin_replace s1 q of None \<Rightarrow> None | Some Undefined \<Rightarrow> Some Undefined
       | Some (Returns b1) \<Rightarrow> Some (Returns (RC_OK, b1)))"
    using m g(1) assms(2,3,4) by (simp add: pinPage_def isPageFrameEmpty_def)
  let ?b2 = "(s1\<lparr>io := io s1 @ [ReadBlock q]\<rparr>)\<lparr>hit := hit s1 + 1, rearIndex := rearIndex s1 + 1\<rparr>"
  let ?np = "newPage_of ?b2 (Some (disk s1 q)) q"
  have rep: "pin_replace s1 q =
      (case strat of RS_FIFO \<Rightarrow> FIFO ?b2 ?np | RS_LRU \<Rightarrow> Some (LRU ?b2 ?np)
       | RS_CLOCK \<Rightarrow> Some (CLOCK ?b2 ?np) | RS_LFU \<Rightarrow> Some (LFU ?b2 ?np)
       | RS_LRU_K \<Rightarrow> Some (LRU_K ?b2 ?np))"
    using g(5) by (cases strat) (simp_all add: pin_replace_def readBlock_def Let_def)
  have fifo: "FIFO ?b2 ?np = None"
  proof -
    have "FIFO_scan [?f] 1 0 = None" by (rule FIFO_scan_all_pinned) simp_all
    then show ?thesis using m g by (simp add: FIFO_def)
  qed
  have lru: "\<exists>b. LRU ?b2 ?np = Returns b"
    using m by (simp add: LRU_def Let_def newPage_of_def)
  have lruk: "\<exists>b. LRU_K ?b2 ?np = Returns b"
    using m by (simp add: LRU_K_def Let_def newPage_of_def)
  have lfu: "\<exists>b. LFU ?b2 ?np = Returns b"
    using m g by (simp add: LFU_def Let_def)
  have clock: "\<exists>b. CLOCK ?b2 ?np = Returns b"
  proof -
    have "CLOCK_loop ?b2 ?np = Returns ?b2"
      using m g by (subst CLOCK_loop.simps) simp
    then show ?thesis by (simp add: CLOCK_def)
  qed
  have "strat = RS_FIFO \<longrightarrow> pinPage s1 q = None"
    using pin rep fifo by simp
  moreover have "strat \<noteq> RS_FIFO \<longrightarrow> (\<exists>s2. pinPage s1 q = Some (Returns (RC_OK, s2)))"
    using pin rep lru lruk lfu clock by (cases strat) auto
  ultimately show ?thesis using fr by simp
qed

theorem pin_second_page_into_single_pinned_frame_witness:
  "(\<exists>s1. pinPage (initBufferPool startup (Some ''pages.bin'') 1 RS_FIFO) 1 = Some (Returns (RC_OK, s1)) \<and>
      map fixCount (frames s1) = [1] \<and> pinPage s1 2 = None) \<and>
   (\<exists>s1 s2. pinPage (initBufferPool startup (Some ''pages.bin'') 1 RS_CLOCK) 1 = Some (Returns (RC_OK, s1)) \<and>
      pinPage s1 2 = Some (Returns (RC_OK, s2)))"
proof -
  let ?e = "\<lparr>data = None, pageNum = - 1, dirtyBit = 0, fixCount = 0, hitNum = 0, refNum = 0\<rparr>"
  let ?a = "initBufferPool startup (Some ''pages.bin'') 1 RS_FIFO"
  let ?c = "initBufferPool startup (Some ''pages.bin'') 1 RS_CLOCK"
  have a: "pinPage ?a 1 = Some (Returns (RC_OK, pin_first ?a [?e] 1))"
    by (simp add: pinPage_def initBufferPool_def isPageFrameEmpty_def)
  have c: "pinPage ?c 1 = Some (Returns (RC_OK, pin_first ?c [?e] 1))"
    by (simp add: pinPage_def initBufferPool_def isPageFrameEmpty_def)
  have 1: "map fixCount (frames (pin_first ?a [?e] 1)) = [1] \<and> pinPage (pin_first ?a [?e] 1) 2 = None"
    using pin_second_page_into_single_pinned_frame [OF a, of 2] by simp
  have 2: "\<exists>s2. pinPage (pin_first ?c [?e] 1) 2 = Some (Returns (RC_OK, s2))"
    using pin_second_page_into_single_pinned_frame [OF c, of 2] by simp
  from 2 obtain s2 where s2: "pinPage (pin_first ?c [?e] 1) 2 = Some (Returns (RC_OK, s2))" ..
  show ?thesis
  proof (intro conjI)
    show "\<exists>s1. pinPage ?a 1 = Some (Returns (RC_OK, s1)) \<and>
      map fixCount (frames s1) = [1] \<and> pinPage s1 2 = None"
      using a 1 by (intro exI [of _ "pin_first ?a [?e] 1"]) simp
    show "\<exists>s1 s2. pinPage ?c 1 = Some (Returns (RC_OK, s1)) \<and>
      pinPage s1 2 = Some (Returns (RC_OK, s2))"
      using c s2 by (intro exI [of _ "pin_first ?c [?e] 1"] exI [of _ s2]) simp
  qed
qed

section \<open>The read counter\<close>

text \<open>
  Claim C9: right after \<^verbatim>\<open>initBufferPool\<close> and before any pin the read count is 0,
  and from then on it is the number of blocks read since the initialisation.
  \<^verbatim>\<open>getNumReadIO\<close> returns \<open>rearIndex + 1\<close>, and \<^verbatim>\<open>initBufferPool\<close> resets the write
  counter but not \<open>rearIndex\<close>. A pool that has just been initialised at program start
  reports 1 read with no block read, and the first pin, which reads one block, leaves
  the count at 1. A pool initialised after an earlier pool has read pages 1 and 2 and
  has been shut down reports 2 reads with no block read since its initialisation, while
  its write count is back at 0.
\<close>

theorem getNumReadIO_before_any_read:
  "getNumReadIO (initBufferPool startup (Some ''pages.bin'') 3 RS_FIFO) = 1 \<and>
   reads (initBufferPool startup (Some ''pages.bin'') 3 RS_FIFO) = [] \<and>
   (case pinPage (initBufferPool startup (Some ''pages.bin'') 3 RS_FIFO) 10 of
      Some (Returns (rc, s)) \<Rightarrow> rc = RC_OK \<and> reads s = [ReadBlock 10] \<and> getNumReadIO s = 1
    | _ \<Rightarrow> False) \<and>
   (case run (initBufferPool startup (Some ''pages.bin'') 2 RS_FIFO)
           [Pin 1, Pin 2, Unpin 1, Unpin 2, Shutdown] of
      Some (Returns (rcs, s)) \<Rightarrow>
        rcs = [RC_OK, RC_OK, RC_OK, RC_OK, RC_OK] \<and>
        reads s = [ReadBlock 1, ReadBlock 2] \<and>
        reads (initBufferPool s (Some ''pages.bin'') 2 RS_FIFO) = reads s \<and>
        list_all isPageFrameEmpty (frames (initBufferPool s (Some ''pages.bin'') 2 RS_FIFO)) \<and>
        getNumReadIO (initBufferPool s (Some ''pages.bin'') 2 RS_FIFO) = 2 \<and>
        getNumWriteIO (initBufferPool s (Some ''pages.bin'') 2 RS_FIFO) = 0
    | _ \<Rightarrow> False)"
  by code_simp

text \<open>
  What the counter does follow. When the pool is initialised from a program state in
  which \<open>rearIndex\<close> is zero and no block has been read, and a client then runs any
  requests, \<open>rearIndex + 1\<close> is the number of blocks read as soon as one has been read:
  a pin of a resident page reads no block and leaves the count as it is, and any other
  pin that returns reads exactly one block and adds one to the count, the first read of
  all excepted.
\<close>

lemma getNumReadIO_counts_reads:
  assumes "0 < n" and "rearIndex g = 0" and "reads g = []"
    and "run (initBufferPool g pageFN n strat) rs = Some (Returns (rcs, s))"
  shows "getNumReadIO (initBufferPool g pageFN n strat) = 1 \<and>
         getNumReadIO s = (if reads s = [] then 1 else length (reads s)) \<and>
         (\<forall>pn rc s'. 0 \<le> pn \<and> mgmtData s \<noteq> None \<and> pinPage s pn = Some (Returns (rc, s')) \<longrightarrow>
            (if pn \<in> pageNum ` set (frames s)
             then reads s' = reads s \<and> getNumReadIO s' = getNumReadIO s
             else reads s' = reads s @ [ReadBlock pn] \<and>
                  getNumReadIO s' = (if reads s = [] then 1 else getNumReadIO s + 1)))"
proof -
  let ?i = "initBufferPool g pageFN n strat"
  have i1: "getNumReadIO ?i = 1"
    using assms(2) by (simp add: getNumReadIO_def initBufferPool_def)
  have "pool_inv ?i" using assms(1) by (rule pool_inv_init)
  moreover have "read_inv ?i" using assms(1-3) by (rule read_inv_init)
  ultimately have inv: "pool_inv s" and ri: "read_inv s"
    using invs_run [OF _ _ assms(4)] by simp_all
  have cnt: "getNumReadIO s = (if reads s = [] then 1 else length (reads s))"
    using ri by (auto simp: read_inv_def getNumReadIO_def split: if_splits)
  have step: "if pn \<in> pageNum ` set (frames s)
             then reads s' = reads s \<and> getNumReadIO s' = getNumReadIO s
             else reads s' = reads s @ [ReadBlock pn] \<and>
                  getNumReadIO s' = (if reads s = [] then 1 else getNumReadIO s + 1)"
    if h: "0 \<le> pn \<and> mgmtData s \<noteq> None \<and> pinPage s pn = Some (Returns (rc, s'))" for pn rc s'
  proof -
    from h obtain fs where m: "mgmtData s = Some fs" by auto
    then have fr: "frames s = fs" by (simp add: frames_def)
    from h have r: "pinPage s pn = Some (Returns (rc, s'))" and pos: "0 \<le> pn" by simp_all
    have e: "reads s = [] \<longleftrightarrow> pageNum (fs ! 0) = - 1"
      using ri m by (auto simp: read_inv_def split: if_splits)
    show ?thesis
      using pinPage_reads [OF inv m r pos] e unfolding fr getNumReadIO_def
      by (auto split: if_splits)
  qed
  from i1 cnt step show ?thesis by blast
qed

lemma getNumReadIO_counts_reads_example:
  "case run (initBufferPool startup (Some ''pages.bin'') 2 RS_FIFO) [Pin 5, Pin 6, Unpin 5] of
     Some (Returns (rcs, s)) \<Rightarrow>
       getNumReadIO s = 2 \<and> reads s = [ReadBlock 5, ReadBlock 6] \<and>
       (case pinPage s 6 of
          Some (Returns (rc, s')) \<Rightarrow> getNumReadIO s' = 2
        | _ \<Rightarrow> False) \<and>
       (case pinPage s 7 of
          Some (Returns (rc, s')) \<Rightarrow> getNumReadIO s' = 3
        | _ \<Rightarrow> False)
   | _ \<Rightarrow> False"
proof -
  let ?i = "initBufferPool startup (Some ''pages.bin'') 2 RS_FIFO"
  let ?r = "run ?i [Pin 5, Pin 6, Unpin 5]"
  have "case ?r of
      Some (Returns (rcs, s)) \<Rightarrow>
        reads s = [ReadBlock 5, ReadBlock 6] \<and> mgmtData s \<noteq> None \<and>
        map pageNum (frames s) = [5, 6] \<and>
        (case pinPage s 6 of Some (Returns (rc, s')) \<Rightarrow> True | _ \<Rightarrow> False) \<and>
        (case pinPage s 7 of Some (Returns (rc, s')) \<Rightarrow> True | _ \<Rightarrow> False)
    | _ \<Rightarrow> False"
    by code_simp
  then obtain rcs s where r: "?r = Some (Returns (rcs, s))"
    and rest: "reads s = [ReadBlock 5, ReadBlock 6] \<and> mgmtData s \<noteq> None \<and>
        map pageNum (frames s) = [5, 6] \<and>
        (case pinPage s 6 of Some (Returns (rc, s')) \<Rightarrow> True | _ \<Rightarrow> False) \<and>
        (case pinPage s 7 of Some (Returns (rc, s')) \<Rightarrow> True | _ \<Rightarrow> False)"
    by (rule returned_caseE)
  from rest have rd: "reads s = [ReadBlock 5, ReadBlock 6]" and m: "mgmtData s \<noteq> None"
    and pg: "map pageNum (frames s) = [5, 6]" by simp_all
  from rest have "case pinPage s 6 of Some (Returns (rc, s')) \<Rightarrow> True | _ \<Rightarrow> False" by simp
  then obtain rc6 s6 where p6: "pinPage s 6 = Some (Returns (rc6, s6))" by (rule returned_caseE)
  from rest have "case pinPage s 7 of Some (Returns (rc, s')) \<Rightarrow> True | _ \<Rightarrow> False" by simp
  then obtain rc7 s7 where p7: "pinPage s 7 = Some (Returns (rc7, s7))" by (rule returned_caseE)
  have g: "(0::nat) < 2" "rearIndex startup = 0" "reads startup = []"
    by (simp_all add: startup_def reads_def)
  note T = getNumReadIO_counts_reads [OF g r]
  have set: "pageNum ` set (frames s) = {5, 6}"
    using pg by (metis list.set_map list.simps(15) empty_set)
  have c: "getNumReadIO s = 2" using T rd by simp
  have h6: "getNumReadIO s6 = 2"
    using T [THEN conjunct2, THEN conjunct2, rule_format, of 6 rc6 s6] m p6 set c by simp
  have h7: "getNumReadIO s7 = 3"
    using T [THEN conjunct2, THEN conjunct2, rule_format, of 7 rc7 s7] m p7 set c rd by simp
  from r rd c p6 p7 h6 h7 show ?thesis by simp
qed


end
